theory Spec2Isabelle
  imports Complex_Main "HOL-Library.Word"
begin

section \<open>Shared vocabulary\<close>

text \<open>
  The frame generators of \<^verbatim>\<open>src/utils/protocolLogic.ts\<close> build a trace by pushing
  frames onto an array while a counter \<^verbatim>\<open>idCounter\<close> hands out the ids. Each generator
  is embedded with that state written out: the array as a list that grows at its end,
  the counter as a natural number. Logic levels (\<^verbatim>\<open>0 | 1\<close>) are natural numbers,
  durations (\<^verbatim>\<open>1\<close> and \<^verbatim>\<open>0.5\<close>) are rationals.

  A JavaScript string is a sequence of UTF-16 code units, so the argument of the UART
  generator is a list of 16-bit words and \<^verbatim>\<open>charCodeAt(0)\<close> is the value of its head.
\<close>

type_synonym js_string = "16 word list"

text \<open>The expression \<^verbatim>\<open>(x >> i) & 1\<close> on a non-negative integer, for \<open>i < 32\<close>.\<close>

definition bitAt :: "nat \<Rightarrow> nat \<Rightarrow> nat" where
  "bitAt x i = (x div 2 ^ i) mod 2"

text \<open>The decimal text a template literal \<^verbatim>\<open>${i}\<close> puts in a label.\<close>

definition digit_char :: "nat \<Rightarrow> char" where
  "digit_char n = ''0123456789'' ! n"

function string_of_nat :: "nat \<Rightarrow> string" where
  "string_of_nat n =
     (if n < 10 then [digit_char n]
      else string_of_nat (n div 10) @ [digit_char (n mod 10)])"
  by pat_completeness auto
termination
  by (relation "measure (\<lambda>n. n)") auto

declare string_of_nat.simps [simp del]

section \<open>UART\<close>

datatype signal_type =
  TStart | TStop | TData | TParity | TIdle | TAck | TNack | TAddress | TRw

record SignalFrame =
  sf_id :: nat
  sf_label :: string
  sf_level :: nat
  sf_type :: signal_type
  sf_duration :: rat

record uart_state =
  u_frames :: "SignalFrame list"
  u_idCounter :: nat

text \<open>\<^verbatim>\<open>frames.push({ id: idCounter++, label, level, type, duration })\<close>\<close>

definition uart_push :: "string \<Rightarrow> nat \<Rightarrow> signal_type \<Rightarrow> rat \<Rightarrow> uart_state \<Rightarrow> uart_state" where
  "uart_push lbl lvl ty dur st =
     st\<lparr>u_frames := u_frames st @
            [\<lparr>sf_id = u_idCounter st, sf_label = lbl, sf_level = lvl,
              sf_type = ty, sf_duration = dur\<rparr>],
        u_idCounter := u_idCounter st + 1\<rparr>"

text \<open>The body of \<^verbatim>\<open>for (let i = 0; i < 8; i++)\<close>.\<close>

definition uart_data_bit :: "nat \<Rightarrow> nat \<Rightarrow> uart_state \<Rightarrow> uart_state" where
  "uart_data_bit ascii i st =
     (let bit = bitAt ascii i
      in uart_push (''D'' @ string_of_nat i) bit TData 1 st)"

definition generateUARTSequence :: "js_string \<Rightarrow> SignalFrame list" where
  "generateUARTSequence char =
     (if length char = 0 then []
      else
        let ascii = unat (hd char);
            st0 = \<lparr>u_frames = [], u_idCounter = 0\<rparr>;
            st1 = uart_push ''Idle'' 1 TIdle 1 st0;
            st2 = uart_push ''Start'' 0 TStart 1 st1;
            st3 = fold (uart_data_bit ascii) [0..<8] st2;
            st4 = uart_push ''Stop'' 1 TStop 1 st3;
            st5 = uart_push ''Idle'' 1 TIdle 1 st4
        in u_frames st5)"

text \<open>Reading eight levels back least-significant bit first.\<close>

definition read_lsb_first :: "nat list \<Rightarrow> nat" where
  "read_lsb_first ls = (\<Sum>i<length ls. ls ! i * 2 ^ i)"

text \<open>Reading levels back most-significant bit first.\<close>

definition read_msb_first :: "nat list \<Rightarrow> nat" where
  "read_msb_first ls = foldl (\<lambda>acc l. 2 * acc + l) 0 ls"

section \<open>I2C: single-master write\<close>

datatype i2c_type =
  I2CStart | I2CStop | I2CData | I2CAck | I2CNack | I2CIdle | I2CAddress

datatype master_state = Active | Lost | MasterIdle

text \<open>The four arbitration fields are optional in the source; \<open>None\<close> is an absent field.\<close>

record I2CSignalFrame =
  i2c_id :: nat
  i2c_label :: string
  sda :: nat
  scl :: nat
  i2c_type :: i2c_type
  i2c_duration :: rat
  sdaA :: "nat option"
  sdaB :: "nat option"
  masterAState :: "master_state option"
  masterBState :: "master_state option"

record i2c_state =
  i_frames :: "I2CSignalFrame list"
  i_idCounter :: nat

definition i2c_push :: "string \<Rightarrow> nat \<Rightarrow> nat \<Rightarrow> i2c_type \<Rightarrow> rat \<Rightarrow> i2c_state \<Rightarrow> i2c_state" where
  "i2c_push lbl d c ty dur st =
     st\<lparr>i_frames := i_frames st @
            [\<lparr>i2c_id = i_idCounter st, i2c_label = lbl, sda = d, scl = c,
              i2c_type = ty, i2c_duration = dur,
              sdaA = None, sdaB = None, masterAState = None, masterBState = None\<rparr>],
        i_idCounter := i_idCounter st + 1\<rparr>"

text \<open>The body of \<^verbatim>\<open>for (let i = 6; i >= 0; i--)\<close> over the address.\<close>

definition i2c_address_bit :: "nat \<Rightarrow> nat \<Rightarrow> i2c_state \<Rightarrow> i2c_state" where
  "i2c_address_bit address i st =
     (let bit = bitAt address i;
          st1 = i2c_push (''A'' @ string_of_nat i) bit 0 I2CAddress (1/2) st;
          st2 = i2c_push (''A'' @ string_of_nat i) bit 1 I2CAddress (1/2) st1;
          st3 = i2c_push (''A'' @ string_of_nat i) bit 0 I2CAddress (1/2) st2
      in st3)"

text \<open>The body of \<^verbatim>\<open>for (let i = 7; i >= 0; i--)\<close> over the data byte.\<close>

definition i2c_data_bit :: "nat \<Rightarrow> nat \<Rightarrow> i2c_state \<Rightarrow> i2c_state" where
  "i2c_data_bit data i st =
     (let bit = bitAt data i;
          st1 = i2c_push (''D'' @ string_of_nat i) bit 0 I2CData (1/2) st;
          st2 = i2c_push (''D'' @ string_of_nat i) bit 1 I2CData (1/2) st1;
          st3 = i2c_push (''D'' @ string_of_nat i) bit 0 I2CData (1/2) st2
      in st3)"

definition generateI2CSequence :: "nat \<Rightarrow> nat \<Rightarrow> I2CSignalFrame list" where
  "generateI2CSequence address data =
     (let st0 = \<lparr>i_frames = [], i_idCounter = 0\<rparr>;
          st1 = i2c_push ''Idle'' 1 1 I2CIdle 1 st0;
          st2 = i2c_push ''Start'' 0 1 I2CStart 1 st1;
          st3 = i2c_push [] 0 0 I2CStart (1/2) st2;
          st4 = fold (i2c_address_bit address) (rev [0..<7]) st3;
          st5 = i2c_push ''W'' 0 0 I2CAddress (1/2) st4;
          st6 = i2c_push ''W'' 0 1 I2CAddress (1/2) st5;
          st7 = i2c_push ''W'' 0 0 I2CAddress (1/2) st6;
          st8 = i2c_push ''ACK'' 0 0 I2CAck (1/2) st7;
          st9 = i2c_push ''ACK'' 0 1 I2CAck (1/2) st8;
          st10 = i2c_push ''ACK'' 0 0 I2CAck (1/2) st9;
          st11 = fold (i2c_data_bit data) (rev [0..<8]) st10;
          st12 = i2c_push ''ACK'' 0 0 I2CAck (1/2) st11;
          st13 = i2c_push ''ACK'' 0 1 I2CAck (1/2) st12;
          st14 = i2c_push ''ACK'' 0 0 I2CAck (1/2) st13;
          st15 = i2c_push ''Stop'' 0 0 I2CStop (1/2) st14;
          st16 = i2c_push ''Stop'' 0 1 I2CStop (1/2) st15;
          st17 = i2c_push ''Stop'' 1 1 I2CStop 1 st16
      in i_frames st17)"

text \<open>
  What a receiver sees of one frame: its type, SDA, SCL and duration; and the
  three-frame pattern of a bit of type \<open>ty\<close> and value \<open>v\<close>: data set while the clock is
  low, clock raised, clock lowered.
\<close>

definition i2c_view :: "I2CSignalFrame \<Rightarrow> i2c_type \<times> nat \<times> nat \<times> rat" where
  "i2c_view f = (i2c_type f, sda f, scl f, i2c_duration f)"

definition three_frames :: "i2c_type \<Rightarrow> nat \<Rightarrow> (i2c_type \<times> nat \<times> nat \<times> rat) list" where
  "three_frames ty v = [(ty, v, 0, 1/2), (ty, v, 1, 1/2), (ty, v, 0, 1/2)]"

text \<open>
  Reading \<open>n\<close> bits back from a trace whose first bit starts at frame \<open>start\<close>: SDA is
  taken from the clock-high frame of each bit, the second of its three.
\<close>

definition i2c_read_bits :: "nat \<Rightarrow> nat \<Rightarrow> I2CSignalFrame list \<Rightarrow> nat list" where
  "i2c_read_bits start n fs = map (\<lambda>j. sda (fs ! (start + 3 * j + 1))) [0..<n]"

section \<open>I2C: two-master arbitration\<close>

record arb_state =
  a_frames :: "I2CSignalFrame list"
  a_idCounter :: nat
  masterALost :: bool
  masterBLost :: bool

text \<open>The closure \<^verbatim>\<open>addFrame\<close>; it reads the two loss flags when it is called.\<close>

definition addFrame ::
  "string \<Rightarrow> nat \<Rightarrow> nat \<Rightarrow> nat \<Rightarrow> i2c_type \<Rightarrow> rat \<Rightarrow> arb_state \<Rightarrow> arb_state" where
  "addFrame lbl sdaA_in sdaB_in c ty dur st =
     (let effectiveA = (if masterALost st then 1 else sdaA_in);
          effectiveB = (if masterBLost st then 1 else sdaB_in);
          busSda = (if effectiveA = 0 \<or> effectiveB = 0 then 0 else 1)
      in st\<lparr>a_frames := a_frames st @
            [\<lparr>i2c_id = a_idCounter st, i2c_label = lbl, sda = busSda, scl = c,
              i2c_type = ty, i2c_duration = dur,
              sdaA = Some effectiveA, sdaB = Some effectiveB,
              masterAState = Some (if masterALost st then Lost else Active),
              masterBState = Some (if masterBLost st then Lost else Active)\<rparr>],
          a_idCounter := a_idCounter st + 1\<rparr>)"

text \<open>The body of the arbitration loop \<^verbatim>\<open>for (let i = 6; i >= 0; i--)\<close>.\<close>

definition arb_bit :: "nat \<Rightarrow> nat \<Rightarrow> nat \<Rightarrow> arb_state \<Rightarrow> arb_state" where
  "arb_bit addrA addrB i st =
     (let bitA = bitAt addrA i;
          bitB = bitAt addrB i;
          valA = bitA;
          valB = bitB;
          st1 = (if \<not> masterALost st \<and> \<not> masterBLost st then
                   (if valA = 1 \<and> valB = 0 then st\<lparr>masterALost := True\<rparr>
                    else if valA = 0 \<and> valB = 1 then st\<lparr>masterBLost := True\<rparr>
                    else st)
                 else st);
          lbl = ''A'' @ string_of_nat i;
          st2 = addFrame lbl valA valB 0 I2CAddress (1/2) st1;
          st3 = addFrame lbl valA valB 1 I2CAddress (1/2) st2;
          st4 = addFrame lbl valA valB 0 I2CAddress (1/2) st3
      in st4)"

text \<open>The acknowledge frames are pushed directly, not through \<^verbatim>\<open>addFrame\<close>.\<close>

definition ack_push :: "nat \<Rightarrow> arb_state \<Rightarrow> arb_state" where
  "ack_push c st =
     st\<lparr>a_frames := a_frames st @
            [\<lparr>i2c_id = a_idCounter st, i2c_label = ''ACK'', sda = 0, scl = c,
              i2c_type = I2CAck, i2c_duration = 1/2,
              sdaA = Some 1, sdaB = Some 1,
              masterAState = Some (if masterALost st then Lost else Active),
              masterBState = Some (if masterBLost st then Lost else Active)\<rparr>],
        a_idCounter := a_idCounter st + 1\<rparr>"

definition generateArbitrationSequence :: "nat \<Rightarrow> nat \<Rightarrow> I2CSignalFrame list" where
  "generateArbitrationSequence addrA addrB =
     (let st0 = \<lparr>a_frames = [], a_idCounter = 0, masterALost = False, masterBLost = False\<rparr>;
          st1 = addFrame ''Idle'' 1 1 1 I2CIdle 1 st0;
          st2 = addFrame ''Start'' 0 0 1 I2CStart 1 st1;
          st3 = addFrame [] 0 0 0 I2CStart (1/2) st2;
          st4 = fold (arb_bit addrA addrB) (rev [0..<7]) st3;
          rwA = 0;
          rwB = 0;
          st5 = addFrame ''W'' rwA rwB 0 I2CAddress (1/2) st4;
          st6 = addFrame ''W'' rwA rwB 1 I2CAddress (1/2) st5;
          st7 = addFrame ''W'' rwA rwB 0 I2CAddress (1/2) st6;
          st8 = ack_push 0 st7;
          st9 = ack_push 1 st8;
          st10 = ack_push 0 st9;
          st11 = addFrame ''Stop'' 0 0 0 I2CStop (1/2) st10;
          st12 = addFrame ''Stop'' 0 0 1 I2CStop (1/2) st11;
          st13 = addFrame ''Stop'' 1 1 1 I2CStop 1 st12
      in a_frames st13)"





definition bit_frame_index :: "nat \<Rightarrow> nat \<Rightarrow> nat" where
  "bit_frame_index j k = 3 + 3 * (6 - j) + k"

text \<open>The logical AND of two recorded drive levels, when both are recorded.\<close>

definition wired_and :: "nat option \<Rightarrow> nat option \<Rightarrow> nat option" where
  "wired_and x y = (case (x, y) of (Some u, Some v) \<Rightarrow> Some (u * v) | _ \<Rightarrow> None)"

text \<open>
  The frames of one address bit in closed form, with the loss flags given as
  comparisons of the address prefixes already sent: after bits \<open>6 \<dots> j\<close>, master A has
  lost exactly when its prefix is the larger one.
\<close>

definition arb_frame ::
  "nat \<Rightarrow> string \<Rightarrow> nat \<Rightarrow> nat \<Rightarrow> nat \<Rightarrow> i2c_type \<Rightarrow> rat \<Rightarrow> bool \<Rightarrow> bool \<Rightarrow> I2CSignalFrame" where
  "arb_frame n lbl va vb c ty dur la lb =
     \<lparr>i2c_id = n, i2c_label = lbl,
      sda = (if (if la then 1 else va) = 0 \<or> (if lb then 1 else vb) = 0 then 0 else 1),
      scl = c, i2c_type = ty, i2c_duration = dur,
      sdaA = Some (if la then 1 else va), sdaB = Some (if lb then 1 else vb),
      masterAState = Some (if la then Lost else Active),
      masterBState = Some (if lb then Lost else Active)\<rparr>"

definition arb_bit_frames :: "nat \<Rightarrow> nat \<Rightarrow> nat \<Rightarrow> nat \<Rightarrow> I2CSignalFrame list" where
  "arb_bit_frames addrA addrB base j =
     (let la = (addrB div 2 ^ j < addrA div 2 ^ j);
          lb = (addrA div 2 ^ j < addrB div 2 ^ j);
          lbl = ''A'' @ string_of_nat j
      in [arb_frame base lbl (bitAt addrA j) (bitAt addrB j) 0 I2CAddress (1/2) la lb,
          arb_frame (base + 1) lbl (bitAt addrA j) (bitAt addrB j) 1 I2CAddress (1/2) la lb,
          arb_frame (base + 2) lbl (bitAt addrA j) (bitAt addrB j) 0 I2CAddress (1/2) la lb])"

definition ack_frame :: "nat \<Rightarrow> nat \<Rightarrow> bool \<Rightarrow> bool \<Rightarrow> I2CSignalFrame" where
  "ack_frame n c la lb =
     \<lparr>i2c_id = n, i2c_label = ''ACK'', sda = 0, scl = c,
      i2c_type = I2CAck, i2c_duration = 1/2,
      sdaA = Some 1, sdaB = Some 1,
      masterAState = Some (if la then Lost else Active),
      masterBState = Some (if lb then Lost else Active)\<rparr>"

text \<open>
  The lowest address bit already examined when frame \<open>n\<close> of an arbitration trace is
  pushed: 7 (none) in the three opening frames, \<open>j\<close> in the frames of bit \<open>j\<close>, 0 after
  the address.
\<close>

definition frame_level :: "nat \<Rightarrow> nat" where
  "frame_level n = (if n < 3 then 7 else if n < 24 then 6 - (n - 3) div 3 else 0)"




section \<open>SPI\<close>

datatype spi_type = SPIIdle | SPIData | SPISetup | SPISample

record SPISignalFrame =
  spi_id :: nat
  spi_label :: string
  cs :: nat
  sck :: nat
  mosi :: nat
  miso :: nat
  spi_type :: spi_type
  spi_duration :: rat

record spi_state =
  s_frames :: "SPISignalFrame list"
  s_idCounter :: nat

text \<open>The closure \<^verbatim>\<open>addFrame\<close> of the SPI generator.\<close>

definition spi_addFrame ::
  "string \<Rightarrow> nat \<Rightarrow> nat \<Rightarrow> nat \<Rightarrow> nat \<Rightarrow> spi_type \<Rightarrow> rat \<Rightarrow> spi_state \<Rightarrow> spi_state" where
  "spi_addFrame lbl c k mo mi ty dur st =
     st\<lparr>s_frames := s_frames st @
            [\<lparr>spi_id = s_idCounter st, spi_label = lbl, cs = c, sck = k,
              mosi = mo, miso = mi, spi_type = ty, spi_duration = dur\<rparr>],
        s_idCounter := s_idCounter st + 1\<rparr>"

text \<open>\<^verbatim>\<open>(mode & 2) ? 1 : 0\<close> and \<^verbatim>\<open>(mode & 1) ? 1 : 0\<close>.\<close>

definition cpol_of :: "nat \<Rightarrow> nat" where
  "cpol_of mode = (if and mode 2 \<noteq> 0 then 1 else 0)"

definition cpha_of :: "nat \<Rightarrow> nat" where
  "cpha_of mode = (if and mode 1 \<noteq> 0 then 1 else 0)"

text \<open>The body of \<^verbatim>\<open>for (let i = 7; i >= 0; i--)\<close>.\<close>

definition spi_bit :: "nat \<Rightarrow> nat \<Rightarrow> nat \<Rightarrow> nat \<Rightarrow> nat \<Rightarrow> nat \<Rightarrow> spi_state \<Rightarrow> spi_state" where
  "spi_bit dataTx dataRx cpha idleSCK activeSCK i st =
     (let bitTx = bitAt dataTx i;
          bitRx = bitAt dataRx i;
          valTx = bitTx;
          valRx = bitRx
      in if cpha = 0 then
           spi_addFrame (''D'' @ string_of_nat i) 0 activeSCK valTx valRx SPIData (1/2)
             (spi_addFrame (''D'' @ string_of_nat i) 0 idleSCK valTx valRx SPIData (1/2) st)
         else
           spi_addFrame (''D'' @ string_of_nat i) 0 idleSCK valTx valRx SPIData (1/2)
             (spi_addFrame (''D'' @ string_of_nat i) 0 activeSCK valTx valRx SPIData (1/2) st))"

definition generateSPISequence :: "nat \<Rightarrow> nat \<Rightarrow> nat \<Rightarrow> SPISignalFrame list" where
  "generateSPISequence dataTx dataRx mode =
     (let cpol = cpol_of mode;
          cpha = cpha_of mode;
          idleSCK = cpol;
          activeSCK = 1 - cpol;
          st0 = \<lparr>s_frames = [], s_idCounter = 0\<rparr>;
          st1 = spi_addFrame ''Idle'' 1 idleSCK 1 1 SPIIdle 1 st0;
          st2 = spi_addFrame ''CS Low'' 0 idleSCK 1 1 SPISetup (1/2) st1;
          st3 = fold (spi_bit dataTx dataRx cpha idleSCK activeSCK) (rev [0..<8]) st2;
          st4 = (if cpha = 0 then spi_addFrame [] 0 idleSCK 1 1 SPIIdle (1/2) st3 else st3);
          st5 = spi_addFrame ''CS High'' 1 idleSCK 1 1 SPIIdle 1 st4
      in s_frames st5)"

text \<open>
  A receiver of the trace, written from the conventional numbering of the four modes
  and not from the generator: mode \<open>m\<close> has clock polarity \<open>m div 2\<close> (the idle level of the
  clock) and clock phase \<open>m mod 2\<close>. With phase 0 data is sampled on the first edge of a
  cycle, which takes the clock to its active level, the opposite of idle; with phase 1
  on the second edge, which returns it to the idle level. So modes 0 and 3 sample on
  the rising edge, modes 1 and 2 on the falling edge. A frame is sampled when chip
  select is low in it and in the frame before it and the clock has just moved to the
  sampling level. \<open>spi_decode\<close> reads the sampled MOSI and MISO levels most significant
  bit first; \<open>spi_stable\<close> says that neither data line changes on a sampling edge.
\<close>

definition mode_polarity :: "nat \<Rightarrow> nat" where
  "mode_polarity mode = mode div 2"

definition mode_phase :: "nat \<Rightarrow> nat" where
  "mode_phase mode = mode mod 2"

definition sample_level :: "nat \<Rightarrow> nat" where
  "sample_level mode =
     (if mode_phase mode = 0 then 1 - mode_polarity mode else mode_polarity mode)"

definition is_sample_edge :: "nat \<Rightarrow> SPISignalFrame \<Rightarrow> SPISignalFrame \<Rightarrow> bool" where
  "is_sample_edge mode f g \<longleftrightarrow>
     cs f = 0 \<and> cs g = 0 \<and> sck f \<noteq> sck g \<and> sck g = sample_level mode"

fun spi_samples :: "nat \<Rightarrow> SPISignalFrame list \<Rightarrow> (nat \<times> nat) list" where
  "spi_samples mode (f # g # fs) =
     (if is_sample_edge mode f g then (mosi g, miso g) # spi_samples mode (g # fs)
      else spi_samples mode (g # fs))"
| "spi_samples mode fs = []"

fun spi_stable :: "nat \<Rightarrow> SPISignalFrame list \<Rightarrow> bool" where
  "spi_stable mode (f # g # fs) =
     ((if is_sample_edge mode f g then mosi f = mosi g \<and> miso f = miso g else True)
      \<and> spi_stable mode (g # fs))"
| "spi_stable mode fs = True"

definition spi_decode :: "nat \<Rightarrow> SPISignalFrame list \<Rightarrow> nat \<times> nat" where
  "spi_decode mode fs =
     (read_msb_first (map fst (spi_samples mode fs)),
      read_msb_first (map snd (spi_samples mode fs)))"

section \<open>JavaScript numbers\<close>

text \<open>
  The converters compute with JavaScript numbers, that is IEEE 754 doubles. A number is a
  finite double, an infinity or NaN; a finite double is represented by the real number it
  denotes, so the two zeros are one value. Every arithmetic operation yields the exact
  real result rounded to the nearest double.
\<close>

datatype js_num = Num real | PosInf | NegInf | NaN

text \<open>Rounding a real to the nearest integer, ties to the even one.\<close>

definition rne :: "real \<Rightarrow> int" where
  "rne y =
     (if y - of_int \<lfloor>y\<rfloor> < 1/2 then \<lfloor>y\<rfloor>
      else if 1/2 < y - of_int \<lfloor>y\<rfloor> then \<lfloor>y\<rfloor> + 1
      else if even \<lfloor>y\<rfloor> then \<lfloor>y\<rfloor> else \<lfloor>y\<rfloor> + 1)"

text \<open>
  The exponent of the unit in the last place of a real \<open>x\<close>: the least \<open>e \<ge> -1074\<close> with
  \<open>\<bar>x\<bar> < 2^(e + 53)\<close>, found by searching upwards from the subnormal exponent.
\<close>

function ulp_search :: "real \<Rightarrow> int \<Rightarrow> int" where
  "ulp_search x e = (if 2 powi (e + 53) \<le> x then ulp_search x (e + 1) else e)"
  by pat_completeness auto
termination
proof (relation "measure (\<lambda>(x, e). nat (\<lceil>x\<rceil> - e))")
  show "wf (measure (\<lambda>(x, e). nat (\<lceil>x\<rceil> - e)))" by simp
next
  fix x :: real and e :: int
  assume le: "2 powi (e + 53) \<le> x"
  have "real_of_int e < 2 powi (e + 53)"
  proof (cases "0 \<le> e")
    case True
    have a: "real (nat (e + 53)) < 2 ^ nat (e + 53)" by (rule of_nat_less_two_power)
    from True have b: "real (nat (e + 53)) = real_of_int e + 53" by simp
    from True have c: "(2::real) powi (e + 53) = 2 ^ nat (e + 53)" by (simp add: power_int_def)
    from a b c show ?thesis by linarith
  next
    case False
    then have "real_of_int e < 0" by simp
    also have "(0::real) < 2 powi (e + 53)" by simp
    finally show ?thesis .
  qed
  with le have "real_of_int e < x" by simp
  then have "e < \<lceil>x\<rceil>" by (simp add: less_ceiling_iff)
  then show "((x, e + 1), (x, e)) \<in> measure (\<lambda>(x, e). nat (\<lceil>x\<rceil> - e))" by simp
qed

declare ulp_search.simps [simp del]

definition ulp_exp :: "real \<Rightarrow> int" where
  "ulp_exp x = ulp_search \<bar>x\<bar> (- 1074)"

text \<open>
  \<open>round_fin x\<close> is the nearest multiple of the unit in the last place of \<open>x\<close>, ties to the
  even multiple: the double nearest to \<open>x\<close> when the exponent range is unbounded above.
  \<open>round_double\<close> is the rounding of IEEE 754: a result of magnitude \<open>2^1024\<close> or more is
  an infinity. \<open>is_double\<close> holds of the reals that are finite doubles.
\<close>

definition round_fin :: "real \<Rightarrow> real" where
  "round_fin x = of_int (rne (x / 2 powi ulp_exp x)) * 2 powi ulp_exp x"

definition round_double :: "real \<Rightarrow> js_num" where
  "round_double x =
     (if 2 ^ 1024 \<le> round_fin x then PosInf
      else if round_fin x \<le> - (2 ^ 1024) then NegInf
      else Num (round_fin x))"

definition is_double :: "real \<Rightarrow> bool" where
  "is_double x \<longleftrightarrow> round_fin x = x \<and> \<bar>x\<bar> < 2 ^ 1024"

text \<open>
  The arithmetic operators on JavaScript numbers: the real result, rounded. The sign of a
  zero is not represented; a zero divisor counts as \<open>+0\<close>.
\<close>

fun jadd :: "js_num \<Rightarrow> js_num \<Rightarrow> js_num" where
  "jadd (Num x) (Num y) = round_double (x + y)"
| "jadd NaN _ = NaN"
| "jadd _ NaN = NaN"
| "jadd PosInf NegInf = NaN"
| "jadd NegInf PosInf = NaN"
| "jadd PosInf _ = PosInf"
| "jadd _ PosInf = PosInf"
| "jadd NegInf _ = NegInf"
| "jadd _ NegInf = NegInf"

fun jneg :: "js_num \<Rightarrow> js_num" where
  "jneg (Num x) = Num (- x)"
| "jneg PosInf = NegInf"
| "jneg NegInf = PosInf"
| "jneg NaN = NaN"

definition jsub :: "js_num \<Rightarrow> js_num \<Rightarrow> js_num" where
  "jsub a b = jadd a (jneg b)"

fun jmul :: "js_num \<Rightarrow> js_num \<Rightarrow> js_num" where
  "jmul (Num x) (Num y) = round_double (x * y)"
| "jmul NaN _ = NaN"
| "jmul _ NaN = NaN"
| "jmul PosInf (Num y) = (if y = 0 then NaN else if 0 < y then PosInf else NegInf)"
| "jmul NegInf (Num y) = (if y = 0 then NaN else if 0 < y then NegInf else PosInf)"
| "jmul (Num x) PosInf = (if x = 0 then NaN else if 0 < x then PosInf else NegInf)"
| "jmul (Num x) NegInf = (if x = 0 then NaN else if 0 < x then NegInf else PosInf)"
| "jmul PosInf PosInf = PosInf"
| "jmul NegInf NegInf = PosInf"
| "jmul PosInf NegInf = NegInf"
| "jmul NegInf PosInf = NegInf"

fun jdiv :: "js_num \<Rightarrow> js_num \<Rightarrow> js_num" where
  "jdiv (Num x) (Num y) =
     (if y = 0 then (if x = 0 then NaN else if 0 < x then PosInf else NegInf)
      else round_double (x / y))"
| "jdiv NaN _ = NaN"
| "jdiv _ NaN = NaN"
| "jdiv (Num x) PosInf = Num 0"
| "jdiv (Num x) NegInf = Num 0"
| "jdiv PosInf (Num y) = (if 0 \<le> y then PosInf else NegInf)"
| "jdiv NegInf (Num y) = (if 0 \<le> y then NegInf else PosInf)"
| "jdiv _ _ = NaN"

text \<open>The comparison \<^verbatim>\<open>a >= b\<close>: false whenever an operand is NaN.\<close>

fun jge :: "js_num \<Rightarrow> js_num \<Rightarrow> bool" where
  "jge (Num x) (Num y) = (y \<le> x)"
| "jge NaN _ = False"
| "jge _ NaN = False"
| "jge PosInf _ = True"
| "jge _ NegInf = True"
| "jge _ _ = False"

text \<open>
  \<^verbatim>\<open>Math.pow(2, n)\<close> for an integer \<open>n\<close>: the exact power where it is a double, infinity
  above the range, zero below it.
\<close>

definition jpow2 :: "int \<Rightarrow> js_num" where
  "jpow2 n = (if 1023 < n then PosInf else if n < - 1074 then Num 0 else Num (2 powi n))"

text \<open>\<^verbatim>\<open>Math.round\<close>: the nearest integer, halves upwards; computed without rounding error.\<close>

fun jround :: "js_num \<Rightarrow> js_num" where
  "jround (Num x) = Num (of_int \<lfloor>x + 1/2\<rfloor>)"
| "jround PosInf = PosInf"
| "jround NegInf = NegInf"
| "jround NaN = NaN"

section \<open>DAC ladder\<close>

text \<open>
  The derived values of \<^verbatim>\<open>DACVisualizer\<close>. The reference voltage is a JavaScript number;
  the digital code and the resolution are integers, converted to numbers where the source
  computes with them.
\<close>

definition stepSize :: "int \<Rightarrow> js_num \<Rightarrow> js_num" where
  "stepSize resolution vRef = jdiv vRef (jpow2 resolution)"

definition outputVoltage :: "int \<Rightarrow> js_num \<Rightarrow> int \<Rightarrow> js_num" where
  "outputVoltage resolution vRef val = jmul (Num (of_int val)) (stepSize resolution vRef)"

text \<open>
  \<^verbatim>\<open>(value >> i) & 1\<close> on integers: the shift count is taken modulo 32, and the bit is
  that of the two's complement form of the value.
\<close>

definition js_bit :: "int \<Rightarrow> int \<Rightarrow> int" where
  "js_bit val i = (val div 2 ^ nat (i mod 32)) mod 2"

text \<open>The loop \<^verbatim>\<open>for (let i = resolution - 1; i >= 0; i--) b.push((value >> i) & 1)\<close>.\<close>

definition bits :: "int \<Rightarrow> int \<Rightarrow> int list" where
  "bits resolution val = map (js_bit val) (rev [0..resolution - 1])"

section \<open>Analog to digital conversion\<close>

record sar_step =
  bitIndex :: int
  bitWeight :: js_num
  trialVoltage :: js_num
  decision :: nat
  currentApproximation :: js_num

text \<open>
  One iteration of the loop \<^verbatim>\<open>for (let i = 0; i < resolution; i++)\<close>; the state is
  the array \<^verbatim>\<open>steps\<close> and the variable \<^verbatim>\<open>currentDacVal\<close>.
\<close>

definition sar_iter ::
  "int \<Rightarrow> js_num \<Rightarrow> js_num \<Rightarrow> nat \<Rightarrow> sar_step list \<times> js_num \<Rightarrow> sar_step list \<times> js_num" where
  "sar_iter resolution vRef inputVoltage i st =
     (let steps = fst st;
          currentDacVal = snd st;
          bw = jdiv vRef (jpow2 (int i + 1));
          trialVal = jadd currentDacVal bw;
          kept = jge inputVoltage trialVal;
          currentDacVal' = (if kept then trialVal else currentDacVal)
      in (steps @ [\<lparr>bitIndex = resolution - 1 - int i, bitWeight = bw,
                     trialVoltage = trialVal, decision = (if kept then 1 else 0),
                     currentApproximation = currentDacVal'\<rparr>],
          currentDacVal'))"

definition sarSteps :: "int \<Rightarrow> js_num \<Rightarrow> js_num \<Rightarrow> sar_step list" where
  "sarSteps resolution vRef inputVoltage =
     fst (fold (sar_iter resolution vRef inputVoltage) [0..<nat resolution] ([], Num 0))"

text \<open>
  The successive-approximation branch of \<^verbatim>\<open>finalVoltage\<close>,
  \<^verbatim>\<open>sarSteps[sarSteps.length - 1].currentApproximation\<close>: on an empty array the element
  is \<^verbatim>\<open>undefined\<close> and reading its property throws.
\<close>

datatype js_error = TypeError

definition finalVoltage_sar :: "sar_step list \<Rightarrow> js_error + js_num" where
  "finalVoltage_sar steps =
     (if steps = [] then Inl TypeError else Inr (currentApproximation (last steps)))"

definition lsbVoltage :: "int \<Rightarrow> js_num \<Rightarrow> js_num" where
  "lsbVoltage resolution vRef = jdiv vRef (jpow2 resolution)"

text \<open>Dual slope. \<^verbatim>\<open>t1\<close> is the constant 100.\<close>

definition t1 :: js_num where
  "t1 = Num 100"

definition t2 :: "js_num \<Rightarrow> js_num \<Rightarrow> js_num" where
  "t2 vRef inputVoltage = jmul (jdiv inputVoltage vRef) t1"

definition dualSlopeMaxCount :: "int \<Rightarrow> js_num" where
  "dualSlopeMaxCount resolution = jsub (jpow2 resolution) (Num 1)"

definition dualSlopeCount :: "int \<Rightarrow> js_num \<Rightarrow> js_num \<Rightarrow> js_num" where
  "dualSlopeCount resolution vRef inputVoltage =
     jround (jmul (jdiv (t2 vRef inputVoltage) t1) (dualSlopeMaxCount resolution))"

section \<open>Bit arithmetic\<close>

lemma bitAt_sum_lsb: "(\<Sum>i<k. bitAt n i * 2 ^ i) = n mod 2 ^ k"
proof (induction k)
  case 0
  show ?case by simp
next
  case (Suc k)
  have "n mod (2 ^ k * 2) = 2 ^ k * (n div 2 ^ k mod 2) + n mod 2 ^ k"
    by (rule mod_mult2_eq)
  then have "n mod 2 ^ Suc k = n mod 2 ^ k + (n div 2 ^ k mod 2) * 2 ^ k"
    by (simp add: mult.commute)
  with Suc show ?case by (simp add: bitAt_def)
qed

section \<open>UART: the twelve frames\<close>

lemma uart_frames_explicit:
  "generateUARTSequence (c # rest) =
     [\<lparr>sf_id = 0, sf_label = ''Idle'', sf_level = 1, sf_type = TIdle, sf_duration = 1\<rparr>,
      \<lparr>sf_id = 1, sf_label = ''Start'', sf_level = 0, sf_type = TStart, sf_duration = 1\<rparr>,
      \<lparr>sf_id = 2, sf_label = ''D0'', sf_level = bitAt (unat c) 0, sf_type = TData, sf_duration = 1\<rparr>,
      \<lparr>sf_id = 3, sf_label = ''D1'', sf_level = bitAt (unat c) 1, sf_type = TData, sf_duration = 1\<rparr>,
      \<lparr>sf_id = 4, sf_label = ''D2'', sf_level = bitAt (unat c) 2, sf_type = TData, sf_duration = 1\<rparr>,
      \<lparr>sf_id = 5, sf_label = ''D3'', sf_level = bitAt (unat c) 3, sf_type = TData, sf_duration = 1\<rparr>,
      \<lparr>sf_id = 6, sf_label = ''D4'', sf_level = bitAt (unat c) 4, sf_type = TData, sf_duration = 1\<rparr>,
      \<lparr>sf_id = 7, sf_label = ''D5'', sf_level = bitAt (unat c) 5, sf_type = TData, sf_duration = 1\<rparr>,
      \<lparr>sf_id = 8, sf_label = ''D6'', sf_level = bitAt (unat c) 6, sf_type = TData, sf_duration = 1\<rparr>,
      \<lparr>sf_id = 9, sf_label = ''D7'', sf_level = bitAt (unat c) 7, sf_type = TData, sf_duration = 1\<rparr>,
      \<lparr>sf_id = 10, sf_label = ''Stop'', sf_level = 1, sf_type = TStop, sf_duration = 1\<rparr>,
      \<lparr>sf_id = 11, sf_label = ''Idle'', sf_level = 1, sf_type = TIdle, sf_duration = 1\<rparr>]"
  by (simp add: generateUARTSequence_def uart_push_def uart_data_bit_def upt_rec
      string_of_nat.simps digit_char_def Let_def eval_nat_numeral)

lemma read_lsb_first_bits: "read_lsb_first (map (bitAt n) [0..<k]) = n mod 2 ^ k"
  using bitAt_sum_lsb [of n k] by (simp add: read_lsb_first_def)

text \<open>
  C9. For every 8-bit ordinal \<open>c\<close> (the first code unit of the argument), the UART
  trace has exactly 12 frames, each of duration 1: frame 0 is idle and high, frame 1 is
  the start bit and low, frames 2 to 9 are data frames carrying bit \<open>i\<close> of \<open>c\<close> at
  frame \<open>2 + i\<close> (least significant bit first, so that reading them back gives \<open>c\<close>),
  frame 10 is the stop bit and high, frame 11 is idle and high.
\<close>

theorem uart_trace_layout:
  assumes "unat c < 256"
  shows "length (generateUARTSequence (c # rest)) = 12
    \<and> (\<forall>f \<in> set (generateUARTSequence (c # rest)). sf_duration f = 1)
    \<and> sf_type (generateUARTSequence (c # rest) ! 0) = TIdle
    \<and> sf_level (generateUARTSequence (c # rest) ! 0) = 1
    \<and> sf_type (generateUARTSequence (c # rest) ! 1) = TStart
    \<and> sf_level (generateUARTSequence (c # rest) ! 1) = 0
    \<and> (\<forall>i<8. sf_type (generateUARTSequence (c # rest) ! (2 + i)) = TData
           \<and> sf_level (generateUARTSequence (c # rest) ! (2 + i)) = bitAt (unat c) i)
    \<and> read_lsb_first (map sf_level (take 8 (drop 2 (generateUARTSequence (c # rest))))) = unat c
    \<and> sf_type (generateUARTSequence (c # rest) ! 10) = TStop
    \<and> sf_level (generateUARTSequence (c # rest) ! 10) = 1
    \<and> sf_type (generateUARTSequence (c # rest) ! 11) = TIdle
    \<and> sf_level (generateUARTSequence (c # rest) ! 11) = 1"
proof -
  have lv: "map sf_level (take 8 (drop 2 (generateUARTSequence (c # rest)))) = map (bitAt (unat c)) [0..<8]"
    by (simp add: uart_frames_explicit upt_rec eval_nat_numeral)
  have "read_lsb_first (map sf_level (take 8 (drop 2 (generateUARTSequence (c # rest))))) = unat c mod 2 ^ 8"
    unfolding lv by (rule read_lsb_first_bits)
  with assms have rd: "read_lsb_first (map sf_level (take 8 (drop 2 (generateUARTSequence (c # rest))))) = unat c"
    by simp
  have bits: "\<forall>i<8. sf_type (generateUARTSequence (c # rest) ! (2 + i)) = TData
           \<and> sf_level (generateUARTSequence (c # rest) ! (2 + i)) = bitAt (unat c) i"
  proof (intro allI impI)
    fix i :: nat
    assume i: "i < 8"
    have eq: "map (\<lambda>f. (sf_type f, sf_level f)) (take 8 (drop 2 (generateUARTSequence (c # rest))))
        = map (\<lambda>i. (TData, bitAt (unat c) i)) [0..<8]"
      by (simp add: uart_frames_explicit upt_rec eval_nat_numeral)
    have len: "length (generateUARTSequence (c # rest)) = 12"
      by (simp add: uart_frames_explicit)
    from i len have "map (\<lambda>f. (sf_type f, sf_level f)) (take 8 (drop 2 (generateUARTSequence (c # rest)))) ! i
        = (sf_type (generateUARTSequence (c # rest) ! (2 + i)), sf_level (generateUARTSequence (c # rest) ! (2 + i)))"
      by simp
    moreover from i have "map (\<lambda>i. (TData, bitAt (unat c) i)) [0..<8] ! i = (TData, bitAt (unat c) i)"
      by simp
    ultimately show "sf_type (generateUARTSequence (c # rest) ! (2 + i)) = TData
           \<and> sf_level (generateUARTSequence (c # rest) ! (2 + i)) = bitAt (unat c) i"
      using eq by simp
  qed
  show ?thesis
    using rd bits by (simp add: uart_frames_explicit)
qed

text \<open>The trace of the character K (code 75).\<close>

theorem uart_trace_layout_witness:
  "unat (75 :: 16 word) < 256
   \<and> map sf_level (generateUARTSequence [75]) = [1, 0, 1, 1, 0, 1, 0, 0, 1, 0, 1, 1]
   \<and> read_lsb_first (map sf_level (take 8 (drop 2 (generateUARTSequence [75])))) = 75"
  using uart_trace_layout [of 75 "[]"]
  by (simp add: uart_frames_explicit bitAt_def)

text \<open>
  C10. On the empty string the UART generator returns no frame; on a non-empty string
  it returns the 12-frame trace of the first character alone, whatever follows it; the
  empty string is the only argument with fewer than 12 frames.
\<close>

theorem uart_empty_and_first_char:
  "generateUARTSequence [] = []
   \<and> generateUARTSequence (c # rest) = generateUARTSequence [c]
   \<and> length (generateUARTSequence (c # rest)) = 12
   \<and> (length (generateUARTSequence s) < 12 \<longleftrightarrow> s = [])"
proof -
  have "length (generateUARTSequence s) < 12 \<longleftrightarrow> s = []"
    by (cases s) (simp_all add: uart_frames_explicit, simp add: generateUARTSequence_def)
  then show ?thesis
    by (simp add: uart_frames_explicit) (simp add: generateUARTSequence_def)
qed

section \<open>I2C single-master write: read-back\<close>

lemma read_msb_first_acc:
  "foldl (\<lambda>acc l. 2 * acc + l) a (map (bitAt n) (rev [0..<k])) = a * 2 ^ k + n mod 2 ^ k"
proof (induction k arbitrary: a)
  case 0
  show ?case by simp
next
  case (Suc k)
  have "n mod (2 ^ k * 2) = 2 ^ k * (n div 2 ^ k mod 2) + n mod 2 ^ k"
    by (rule mod_mult2_eq)
  then have split: "n mod 2 ^ Suc k = bitAt n k * 2 ^ k + n mod 2 ^ k"
    by (simp add: mult.commute bitAt_def)
  have "foldl (\<lambda>acc l. 2 * acc + l) a (map (bitAt n) (rev [0..<Suc k]))
      = foldl (\<lambda>acc l. 2 * acc + l) (2 * a + bitAt n k) (map (bitAt n) (rev [0..<k]))"
    by simp
  also have "\<dots> = (2 * a + bitAt n k) * 2 ^ k + n mod 2 ^ k"
    by (rule Suc.IH)
  also have "\<dots> = a * 2 ^ Suc k + n mod 2 ^ Suc k"
    unfolding split by (simp add: algebra_simps)
  finally show ?case .
qed

lemma read_msb_first_bits: "read_msb_first (map (bitAt n) (rev [0..<k])) = n mod 2 ^ k"
  using read_msb_first_acc [of 0 n k] by (simp add: read_msb_first_def)

lemma rev_upt_7: "rev [0..<7] = [6, 5, 4, 3, 2, 1, 0]"
  by (simp add: upt_rec)

lemma rev_upt_8: "rev [0..<8] = [7, 6, 5, 4, 3, 2, 1, 0]"
  by (simp add: upt_rec)

lemma i2c_view_trace:
  "map i2c_view (generateI2CSequence a d) =
     [(I2CIdle, 1, 1, 1), (I2CStart, 0, 1, 1), (I2CStart, 0, 0, 1/2)]
     @ concat (map (\<lambda>i. three_frames I2CAddress (bitAt a i)) (rev [0..<7]))
     @ three_frames I2CAddress 0
     @ three_frames I2CAck 0
     @ concat (map (\<lambda>i. three_frames I2CData (bitAt d i)) (rev [0..<8]))
     @ three_frames I2CAck 0
     @ [(I2CStop, 0, 0, 1/2), (I2CStop, 0, 1, 1/2), (I2CStop, 1, 1, 1)]"
  by (simp add: generateI2CSequence_def i2c_push_def i2c_address_bit_def i2c_data_bit_def
      rev_upt_7 rev_upt_8 Let_def i2c_view_def three_frames_def)


lemma i2c_length: "length (generateI2CSequence a d) = 60"
proof -
  have "length (map i2c_view (generateI2CSequence a d)) = 60"
    unfolding i2c_view_trace by (simp add: rev_upt_7 rev_upt_8 three_frames_def)
  then show ?thesis by simp
qed

lemma sda_via_view: "n < length fs \<Longrightarrow> sda (fs ! n) = fst (snd (map i2c_view fs ! n))"
  by (simp add: i2c_view_def)

lemma i2c_read_bits_view:
  "start + 3 * n \<le> length fs \<Longrightarrow>
   i2c_read_bits start n fs = map (\<lambda>j. fst (snd (map i2c_view fs ! (start + 3 * j + 1)))) [0..<n]"
  by (simp add: i2c_read_bits_def i2c_view_def)

lemma i2c_read_address:
  "i2c_read_bits 3 7 (generateI2CSequence a d) = map (bitAt a) (rev [0..<7])"
proof -
  have "i2c_read_bits 3 7 (generateI2CSequence a d)
      = map (\<lambda>j. fst (snd (map i2c_view (generateI2CSequence a d) ! (3 + 3 * j + 1)))) [0..<7]"
    by (rule i2c_read_bits_view) (simp add: i2c_length)
  also have "\<dots> = map (bitAt a) (rev [0..<7])"
    unfolding i2c_view_trace
    by (simp add: rev_upt_7 rev_upt_8 three_frames_def upt_rec eval_nat_numeral)
  finally show ?thesis .
qed

lemma i2c_read_data:
  "i2c_read_bits 30 8 (generateI2CSequence a d) = map (bitAt d) (rev [0..<8])"
proof -
  have "i2c_read_bits 30 8 (generateI2CSequence a d)
      = map (\<lambda>j. fst (snd (map i2c_view (generateI2CSequence a d) ! (30 + 3 * j + 1)))) [0..<8]"
    by (rule i2c_read_bits_view) (simp add: i2c_length)
  also have "\<dots> = map (bitAt d) (rev [0..<8])"
    unfolding i2c_view_trace
    by (simp add: rev_upt_7 rev_upt_8 three_frames_def upt_rec eval_nat_numeral)
  finally show ?thesis .
qed

lemma view_slice:
  "map i2c_view (take n (drop m fs)) = take n (drop m (map i2c_view fs))"
  by (simp add: take_map drop_map)

text \<open>
  C5. For every 7-bit address \<open>a\<close> and 8-bit data byte \<open>d\<close>, the standard I2C trace has
  60 frames; frames 3 to 23 are the seven address bits, most significant first, each as
  three half-unit frames (clock low, clock high, clock low) with the same SDA level in
  all three; frames 30 to 53 are the eight data bits in the same pattern; reading SDA
  at the clock-high frame of each bit, most significant bit first, gives back \<open>a\<close> and
  \<open>d\<close>; and both acknowledge phases (frames 27 to 29 and 54 to 56) hold SDA low.
\<close>

theorem i2c_standard_roundtrip:
  assumes "a < 128" and "d < 256"
  shows "length (generateI2CSequence a d) = 60
    \<and> map i2c_view (take 21 (drop 3 (generateI2CSequence a d)))
        = concat (map (\<lambda>i. three_frames I2CAddress (bitAt a i)) (rev [0..<7]))
    \<and> read_msb_first (i2c_read_bits 3 7 (generateI2CSequence a d)) = a
    \<and> map i2c_view (take 3 (drop 27 (generateI2CSequence a d))) = three_frames I2CAck 0
    \<and> map i2c_view (take 24 (drop 30 (generateI2CSequence a d)))
        = concat (map (\<lambda>i. three_frames I2CData (bitAt d i)) (rev [0..<8]))
    \<and> read_msb_first (i2c_read_bits 30 8 (generateI2CSequence a d)) = d
    \<and> map i2c_view (take 3 (drop 54 (generateI2CSequence a d))) = three_frames I2CAck 0"
proof -
  have ra: "read_msb_first (i2c_read_bits 3 7 (generateI2CSequence a d)) = a"
    using assms(1) by (simp add: i2c_read_address read_msb_first_bits)
  have rd: "read_msb_first (i2c_read_bits 30 8 (generateI2CSequence a d)) = d"
    using assms(2) by (simp add: i2c_read_data read_msb_first_bits)
  have s1: "map i2c_view (take 21 (drop 3 (generateI2CSequence a d)))
        = concat (map (\<lambda>i. three_frames I2CAddress (bitAt a i)) (rev [0..<7]))"
    unfolding view_slice i2c_view_trace by (simp add: rev_upt_7 rev_upt_8 three_frames_def)
  have s2: "map i2c_view (take 3 (drop 27 (generateI2CSequence a d))) = three_frames I2CAck 0"
    unfolding view_slice i2c_view_trace by (simp add: rev_upt_7 rev_upt_8 three_frames_def)
  have s3: "map i2c_view (take 24 (drop 30 (generateI2CSequence a d)))
        = concat (map (\<lambda>i. three_frames I2CData (bitAt d i)) (rev [0..<8]))"
    unfolding view_slice i2c_view_trace by (simp add: rev_upt_7 rev_upt_8 three_frames_def)
  have s4: "map i2c_view (take 3 (drop 54 (generateI2CSequence a d))) = three_frames I2CAck 0"
    unfolding view_slice i2c_view_trace by (simp add: rev_upt_7 rev_upt_8 three_frames_def)
  from ra rd s1 s2 s3 s4 i2c_length show ?thesis by blast
qed

text \<open>The trace of address 0x42 and data 0x15.\<close>

theorem i2c_standard_roundtrip_witness:
  "(66::nat) < 128 \<and> (21::nat) < 256
   \<and> map sda (take 21 (drop 3 (generateI2CSequence 66 21)))
        = [1,1,1, 0,0,0, 0,0,0, 0,0,0, 0,0,0, 1,1,1, 0,0,0]
   \<and> read_msb_first (i2c_read_bits 3 7 (generateI2CSequence 66 21)) = 66
   \<and> read_msb_first (i2c_read_bits 30 8 (generateI2CSequence 66 21)) = 21"
proof -
  have "map sda (take 21 (drop 3 (generateI2CSequence 66 21)))
        = map (\<lambda>v. fst (snd v)) (map i2c_view (take 21 (drop 3 (generateI2CSequence 66 21))))"
    by (simp add: i2c_view_def)
  also have "\<dots> = [1,1,1, 0,0,0, 0,0,0, 0,0,0, 0,0,0, 1,1,1, 0,0,0]"
    using i2c_standard_roundtrip [of 66 21]
    by (simp add: rev_upt_7 three_frames_def bitAt_def)
  finally show ?thesis
    using i2c_standard_roundtrip [of 66 21] by simp
qed

section \<open>SPI: sampling on the designated edge\<close>

lemma mode_cases: "mode < 4 \<Longrightarrow> mode = 0 \<or> mode = 1 \<or> mode = 2 \<or> mode = (3::nat)"
  by arith

lemma spi_mode_decode:
  "cpol_of 0 = 0" "cpha_of 0 = 0" "cpol_of 1 = 0" "cpha_of 1 = 1"
  "cpol_of 2 = 1" "cpha_of 2 = 0" "cpol_of 3 = 1" "cpha_of 3 = 1"
  "cpol_of (Suc 0) = 0" "cpha_of (Suc 0) = 1"
  by (simp_all add: cpol_of_def cpha_of_def)

lemma spi_samples_trace:
  assumes "mode < 4"
  shows "spi_samples mode (generateSPISequence tx rx mode)
     = map (\<lambda>i. (bitAt tx i, bitAt rx i)) (rev [0..<8])"
proof -
  have m0: "spi_samples 0 (generateSPISequence tx rx 0) = map (\<lambda>i. (bitAt tx i, bitAt rx i)) (rev [0..<8])"
    by (simp add: generateSPISequence_def spi_addFrame_def spi_bit_def spi_mode_decode
        rev_upt_8 Let_def is_sample_edge_def sample_level_def
        mode_polarity_def mode_phase_def)
  have m1: "spi_samples 1 (generateSPISequence tx rx 1) = map (\<lambda>i. (bitAt tx i, bitAt rx i)) (rev [0..<8])"
    by (simp add: generateSPISequence_def spi_addFrame_def spi_bit_def spi_mode_decode
        rev_upt_8 Let_def is_sample_edge_def sample_level_def
        mode_polarity_def mode_phase_def)
  have m2: "spi_samples 2 (generateSPISequence tx rx 2) = map (\<lambda>i. (bitAt tx i, bitAt rx i)) (rev [0..<8])"
    by (simp add: generateSPISequence_def spi_addFrame_def spi_bit_def spi_mode_decode
        rev_upt_8 Let_def is_sample_edge_def sample_level_def
        mode_polarity_def mode_phase_def)
  have m3: "spi_samples 3 (generateSPISequence tx rx 3) = map (\<lambda>i. (bitAt tx i, bitAt rx i)) (rev [0..<8])"
    by (simp add: generateSPISequence_def spi_addFrame_def spi_bit_def spi_mode_decode
        rev_upt_8 Let_def is_sample_edge_def sample_level_def
        mode_polarity_def mode_phase_def)
  from mode_cases [OF assms] m0 m1 m2 m3 show ?thesis by auto
qed

lemma spi_stable_trace:
  assumes "mode < 4"
  shows "spi_stable mode (generateSPISequence tx rx mode)"
proof -
  have m0: "spi_stable 0 (generateSPISequence tx rx 0)"
    by (simp add: generateSPISequence_def spi_addFrame_def spi_bit_def spi_mode_decode
        rev_upt_8 Let_def is_sample_edge_def sample_level_def
        mode_polarity_def mode_phase_def)
  have m1: "spi_stable 1 (generateSPISequence tx rx 1)"
    by (simp add: generateSPISequence_def spi_addFrame_def spi_bit_def spi_mode_decode
        rev_upt_8 Let_def is_sample_edge_def sample_level_def
        mode_polarity_def mode_phase_def)
  have m2: "spi_stable 2 (generateSPISequence tx rx 2)"
    by (simp add: generateSPISequence_def spi_addFrame_def spi_bit_def spi_mode_decode
        rev_upt_8 Let_def is_sample_edge_def sample_level_def
        mode_polarity_def mode_phase_def)
  have m3: "spi_stable 3 (generateSPISequence tx rx 3)"
    by (simp add: generateSPISequence_def spi_addFrame_def spi_bit_def spi_mode_decode
        rev_upt_8 Let_def is_sample_edge_def sample_level_def
        mode_polarity_def mode_phase_def)
  from mode_cases [OF assms] m0 m1 m2 m3 show ?thesis by auto
qed

text \<open>
  C6. For every pair of 8-bit bytes and every mode 0 to 3, the SPI trace contains
  exactly eight sampling edges of that mode (rising for modes 0 and 3, falling for
  modes 1 and 2), the MOSI and MISO levels sampled on them
  read back, most significant bit first, to the controller-out and the peripheral-out
  byte, and neither data line changes on a sampling edge.
\<close>

theorem spi_roundtrip:
  assumes "tx < 256" and "rx < 256" and "mode < 4"
  shows "spi_decode mode (generateSPISequence tx rx mode) = (tx, rx)
    \<and> length (spi_samples mode (generateSPISequence tx rx mode)) = 8
    \<and> spi_stable mode (generateSPISequence tx rx mode)"
proof -
  have f: "map fst (spi_samples mode (generateSPISequence tx rx mode)) = map (bitAt tx) (rev [0..<8])"
    unfolding spi_samples_trace [OF assms(3)] by (simp add: comp_def)
  have s: "map snd (spi_samples mode (generateSPISequence tx rx mode)) = map (bitAt rx) (rev [0..<8])"
    unfolding spi_samples_trace [OF assms(3)] by (simp add: comp_def)
  have "spi_decode mode (generateSPISequence tx rx mode) = (tx mod 2 ^ 8, rx mod 2 ^ 8)"
    unfolding spi_decode_def f s read_msb_first_bits ..
  with assms(1,2) have "spi_decode mode (generateSPISequence tx rx mode) = (tx, rx)"
    by simp
  moreover have "length (spi_samples mode (generateSPISequence tx rx mode)) = 8"
    unfolding spi_samples_trace [OF assms(3)] by simp
  ultimately show ?thesis
    using spi_stable_trace [OF assms(3)] by simp
qed

text \<open>The exchange of 0xA5 and 0x3C in mode 1 and in mode 2.\<close>

theorem spi_roundtrip_witness:
  "(165::nat) < 256 \<and> (60::nat) < 256 \<and> (1::nat) < 4 \<and> (2::nat) < 4
   \<and> spi_decode 1 (generateSPISequence 165 60 1) = (165, 60)
   \<and> spi_decode 2 (generateSPISequence 165 60 2) = (165, 60)
   \<and> map mosi (generateSPISequence 165 60 2)
      = [1, 1, 1, 1, 0, 0, 1, 1, 0, 0, 0, 0, 1, 1, 0, 0, 1, 1, 1, 1]"
proof -
  have "map mosi (generateSPISequence 165 60 2)
      = [1, 1, 1, 1, 0, 0, 1, 1, 0, 0, 0, 0, 1, 1, 0, 0, 1, 1, 1, 1]"
    by (simp add: generateSPISequence_def spi_addFrame_def spi_bit_def spi_mode_decode
        rev_upt_8 Let_def bitAt_def)
  then show ?thesis
    using spi_roundtrip [of 165 60 1] spi_roundtrip [of 165 60 2] by simp
qed

section \<open>Arbitration: the loop in closed form\<close>

lemma div_pow2_Suc: "x div 2 ^ i = 2 * (x div 2 ^ Suc i) + bitAt x i"
proof -
  have "x div (2 ^ i * 2) = x div 2 ^ i div 2"
    by (rule div_mult2_eq)
  then have "x div 2 ^ Suc i = x div 2 ^ i div 2"
    by (simp add: mult.commute)
  then show ?thesis by (simp add: bitAt_def)
qed

lemma bitAt_less_2: "bitAt x i < 2"
  by (simp add: bitAt_def)

lemma arb_flag_step:
  assumes "la = (b div 2 ^ Suc i < a div 2 ^ Suc i)"
      and "lb = (a div 2 ^ Suc i < b div 2 ^ Suc i)"
  shows "(la \<or> (\<not> lb \<and> bitAt a i = 1 \<and> bitAt b i = 0)) = (b div 2 ^ i < a div 2 ^ i)"
    and "(lb \<or> (\<not> la \<and> bitAt a i = 0 \<and> bitAt b i = 1)) = (a div 2 ^ i < b div 2 ^ i)"
  using assms bitAt_less_2 [of a i] bitAt_less_2 [of b i]
  unfolding div_pow2_Suc [of a i] div_pow2_Suc [of b i]
  by auto

lemma arb_bit_step:
  "arb_bit a b i st =
     st\<lparr>a_frames := a_frames st @
          (let la = (masterALost st \<or> (\<not> masterBLost st \<and> bitAt a i = 1 \<and> bitAt b i = 0));
               lb = (masterBLost st \<or> (\<not> masterALost st \<and> bitAt a i = 0 \<and> bitAt b i = 1));
               lbl = ''A'' @ string_of_nat i
           in [arb_frame (a_idCounter st) lbl (bitAt a i) (bitAt b i) 0 I2CAddress (1/2) la lb,
               arb_frame (a_idCounter st + 1) lbl (bitAt a i) (bitAt b i) 1 I2CAddress (1/2) la lb,
               arb_frame (a_idCounter st + 2) lbl (bitAt a i) (bitAt b i) 0 I2CAddress (1/2) la lb]),
        a_idCounter := a_idCounter st + 3,
        masterALost := (masterALost st \<or> (\<not> masterBLost st \<and> bitAt a i = 1 \<and> bitAt b i = 0)),
        masterBLost := (masterBLost st \<or> (\<not> masterALost st \<and> bitAt a i = 0 \<and> bitAt b i = 1))\<rparr>"
  using bitAt_less_2 [of a i] bitAt_less_2 [of b i]
  by (cases "masterALost st"; cases "masterBLost st"; cases "bitAt a i = 0"; cases "bitAt b i = 0")
     (simp_all add: arb_bit_def addFrame_def arb_frame_def Let_def)


lemma arb_bit_closed:
  assumes "masterALost st = (b div 2 ^ Suc i < a div 2 ^ Suc i)"
      and "masterBLost st = (a div 2 ^ Suc i < b div 2 ^ Suc i)"
  shows "arb_bit a b i st =
     st\<lparr>a_frames := a_frames st @ arb_bit_frames a b (a_idCounter st) i,
        a_idCounter := a_idCounter st + 3,
        masterALost := (b div 2 ^ i < a div 2 ^ i),
        masterBLost := (a div 2 ^ i < b div 2 ^ i)\<rparr>"
  unfolding arb_bit_step arb_flag_step [OF assms] arb_bit_frames_def ..

lemma arb_loop:
  assumes "masterALost st = (b div 2 ^ n < a div 2 ^ n)"
      and "masterBLost st = (a div 2 ^ n < b div 2 ^ n)"
  shows "fold (arb_bit a b) (rev [0..<n]) st =
     st\<lparr>a_frames := a_frames st @
          concat (map (\<lambda>j. arb_bit_frames a b (a_idCounter st + 3 * (n - 1 - j)) j) (rev [0..<n])),
        a_idCounter := a_idCounter st + 3 * n,
        masterALost := (b < a),
        masterBLost := (a < b)\<rparr>"
  using assms
proof (induction n arbitrary: st)
  case 0
  then show ?case by simp
next
  case (Suc n)
  let ?st = "arb_bit a b n st"
  have step: "?st = st\<lparr>a_frames := a_frames st @ arb_bit_frames a b (a_idCounter st) n,
        a_idCounter := a_idCounter st + 3,
        masterALost := (b div 2 ^ n < a div 2 ^ n),
        masterBLost := (a div 2 ^ n < b div 2 ^ n)\<rparr>"
    using Suc.prems by (rule arb_bit_closed)
  have la: "masterALost ?st = (b div 2 ^ n < a div 2 ^ n)"
    and lb: "masterBLost ?st = (a div 2 ^ n < b div 2 ^ n)"
    unfolding step by simp_all
  have bases: "map (\<lambda>j. arb_bit_frames a b (a_idCounter ?st + 3 * (n - 1 - j)) j) (rev [0..<n])
      = map (\<lambda>j. arb_bit_frames a b (a_idCounter st + 3 * (Suc n - 1 - j)) j) (rev [0..<n])"
    unfolding step by (rule map_cong) (auto simp: algebra_simps)
  have "fold (arb_bit a b) (rev [0..<Suc n]) st = fold (arb_bit a b) (rev [0..<n]) ?st"
    by simp
  also have "\<dots> = ?st\<lparr>a_frames := a_frames ?st @
          concat (map (\<lambda>j. arb_bit_frames a b (a_idCounter ?st + 3 * (n - 1 - j)) j) (rev [0..<n])),
        a_idCounter := a_idCounter ?st + 3 * n,
        masterALost := (b < a),
        masterBLost := (a < b)\<rparr>"
    using la lb by (rule Suc.IH)
  also have "\<dots> = st\<lparr>a_frames := a_frames st @
          concat (map (\<lambda>j. arb_bit_frames a b (a_idCounter st + 3 * (Suc n - 1 - j)) j) (rev [0..<Suc n])),
        a_idCounter := a_idCounter st + 3 * Suc n,
        masterALost := (b < a),
        masterBLost := (a < b)\<rparr>"
    unfolding bases by (simp add: step)
  finally show ?case .
qed

lemma addFrame_literal:
  "addFrame lbl va vb c ty dur
     \<lparr>a_frames = fs, a_idCounter = n, masterALost = la, masterBLost = lb\<rparr>
   = \<lparr>a_frames = fs @ [arb_frame n lbl va vb c ty dur la lb], a_idCounter = n + 1,
      masterALost = la, masterBLost = lb\<rparr>"
  by (simp add: addFrame_def arb_frame_def)

lemma ack_push_literal:
  "ack_push c \<lparr>a_frames = fs, a_idCounter = n, masterALost = la, masterBLost = lb\<rparr>
   = \<lparr>a_frames = fs @ [ack_frame n c la lb], a_idCounter = n + 1,
      masterALost = la, masterBLost = lb\<rparr>"
  by (simp add: ack_push_def ack_frame_def)

lemma arb_loop_literal:
  assumes "a < 128" and "b < 128"
  shows "fold (arb_bit a b) (rev [0..<7])
       \<lparr>a_frames = fs, a_idCounter = n, masterALost = False, masterBLost = False\<rparr>
     = \<lparr>a_frames = fs @ concat (map (\<lambda>j. arb_bit_frames a b (n + 3 * (6 - j)) j) (rev [0..<7])),
        a_idCounter = n + 21, masterALost = (b < a), masterBLost = (a < b)\<rparr>"
proof -
  let ?st = "\<lparr>a_frames = fs, a_idCounter = n, masterALost = False, masterBLost = False\<rparr>"
  have la: "masterALost ?st = (b div 2 ^ 7 < a div 2 ^ 7)"
    and lb: "masterBLost ?st = (a div 2 ^ 7 < b div 2 ^ 7)"
    using assms by simp_all
  have "fold (arb_bit a b) (rev [0..<7]) ?st =
     ?st\<lparr>a_frames := a_frames ?st @
          concat (map (\<lambda>j. arb_bit_frames a b (a_idCounter ?st + 3 * (7 - 1 - j)) j) (rev [0..<7])),
        a_idCounter := a_idCounter ?st + 3 * 7,
        masterALost := (b < a),
        masterBLost := (a < b)\<rparr>"
    using la lb by (rule arb_loop)
  then show ?thesis by (simp del: upt_Suc)
qed

lemma arb_trace:
  assumes "a < 128" and "b < 128"
  shows "generateArbitrationSequence a b =
     [arb_frame 0 ''Idle'' 1 1 1 I2CIdle 1 False False,
      arb_frame 1 ''Start'' 0 0 1 I2CStart 1 False False,
      arb_frame 2 [] 0 0 0 I2CStart (1/2) False False]
     @ concat (map (\<lambda>j. arb_bit_frames a b (3 + 3 * (6 - j)) j) (rev [0..<7]))
     @ [arb_frame 24 ''W'' 0 0 0 I2CAddress (1/2) (b < a) (a < b),
        arb_frame 25 ''W'' 0 0 1 I2CAddress (1/2) (b < a) (a < b),
        arb_frame 26 ''W'' 0 0 0 I2CAddress (1/2) (b < a) (a < b),
        ack_frame 27 0 (b < a) (a < b),
        ack_frame 28 1 (b < a) (a < b),
        ack_frame 29 0 (b < a) (a < b),
        arb_frame 30 ''Stop'' 0 0 0 I2CStop (1/2) (b < a) (a < b),
        arb_frame 31 ''Stop'' 0 0 1 I2CStop (1/2) (b < a) (a < b),
        arb_frame 32 ''Stop'' 1 1 1 I2CStop 1 (b < a) (a < b)]"
  unfolding generateArbitrationSequence_def Let_def addFrame_literal
    arb_loop_literal [OF assms] ack_push_literal
  by (simp add: eval_nat_numeral del: upt_Suc rev.simps)


lemma concat_nth_uniform:
  assumes "\<forall>x \<in> set xs. length (F x) = m" and "p < length xs" and "k < m"
  shows "concat (map F xs) ! (m * p + k) = F (xs ! p) ! k"
  using assms
proof (induction xs arbitrary: p)
  case Nil
  then show ?case by simp
next
  case (Cons x xs)
  show ?case
  proof (cases p)
    case 0
    with Cons.prems show ?thesis by (simp add: nth_append)
  next
    case (Suc q)
    with Cons.prems have q: "q < length xs" by simp
    from Cons.prems have len: "length (F x) = m" by simp
    have "concat (map F (x # xs)) ! (m * p + k) = (F x @ concat (map F xs)) ! (m + (m * q + k))"
      using Suc by (simp add: algebra_simps)
    also have "\<dots> = concat (map F xs) ! (m * q + k)"
      using len by (simp add: nth_append)
    also have "\<dots> = F (xs ! q) ! k"
      using Cons.prems q by (intro Cons.IH) simp_all
    finally show ?thesis using Suc by simp
  qed
qed

lemma arb_bit_frame_at:
  assumes "a < 128" and "b < 128" and "j < 7" and "k < 3"
  shows "generateArbitrationSequence a b ! bit_frame_index j k
     = arb_frame (bit_frame_index j k) (''A'' @ string_of_nat j) (bitAt a j) (bitAt b j)
         (if k = 1 then 1 else 0) I2CAddress (1/2)
         (b div 2 ^ j < a div 2 ^ j) (a div 2 ^ j < b div 2 ^ j)"
proof -
  let ?F = "\<lambda>j. arb_bit_frames a b (3 + 3 * (6 - j)) j"
  let ?H = "[arb_frame 0 ''Idle'' 1 1 1 I2CIdle 1 False False,
      arb_frame 1 ''Start'' 0 0 1 I2CStart 1 False False,
      arb_frame 2 [] 0 0 0 I2CStart (1/2) False False]"
  let ?q = "3 * (6 - j) + k"
  have lenF: "\<forall>x \<in> set (rev [0..<7]). length (?F x) = 3"
    by (simp add: arb_bit_frames_def Let_def del: upt_Suc)
  have lenC: "length (concat (map ?F (rev [0..<7]))) = 21"
    by (simp add: rev_upt_7 arb_bit_frames_def Let_def)
  from assms(3,4) have q: "?q < 21" by arith
  from assms(3) have p: "6 - j < length (rev [0..<7])" by simp
  from assms(3) have sel: "rev [0..<7] ! (6 - j) = j"
    by (simp add: rev_nth del: upt_Suc)
  have "generateArbitrationSequence a b ! bit_frame_index j k
      = (?H @ concat (map ?F (rev [0..<7])) @ drop 24 (generateArbitrationSequence a b)) ! (3 + ?q)"
    unfolding arb_trace [OF assms(1,2)]
    by (simp add: bit_frame_index_def lenC del: upt_Suc)
  also have "\<dots> = (concat (map ?F (rev [0..<7])) @ drop 24 (generateArbitrationSequence a b)) ! ?q"
    by (simp add: nth_append del: upt_Suc)
  also have "\<dots> = concat (map ?F (rev [0..<7])) ! ?q"
    using q lenC by (simp add: nth_append del: upt_Suc)
  also have "\<dots> = ?F (rev [0..<7] ! (6 - j)) ! k"
    using lenF p assms(4) by (rule concat_nth_uniform)
  also have "\<dots> = ?F j ! k"
    unfolding sel ..
  also have "\<dots> = arb_frame (bit_frame_index j k) (''A'' @ string_of_nat j) (bitAt a j) (bitAt b j)
         (if k = 1 then 1 else 0) I2CAddress (1/2)
         (b div 2 ^ j < a div 2 ^ j) (a div 2 ^ j < b div 2 ^ j)"
  proof -
    from assms(4) have "k = 0 \<or> k = 1 \<or> k = 2" by arith
    then show ?thesis
      by (auto simp: arb_bit_frames_def Let_def bit_frame_index_def)
  qed
  finally show ?thesis .
qed


lemma div_pow2_ge: "l \<le> j \<Longrightarrow> (x::nat) div 2 ^ j = x div 2 ^ l div 2 ^ (j - l)"
proof -
  assume "l \<le> j"
  then have "(2::nat) ^ j = 2 ^ l * 2 ^ (j - l)"
    by (simp add: power_add [symmetric])
  then show ?thesis by (simp add: div_mult2_eq)
qed

lemma lost_down:
  assumes "l' \<le> l" and "(y::nat) div 2 ^ l < x div 2 ^ l"
  shows "y div 2 ^ l' < x div 2 ^ l'"
proof (rule ccontr)
  assume "\<not> y div 2 ^ l' < x div 2 ^ l'"
  then have "x div 2 ^ l' \<le> y div 2 ^ l'" by simp
  then have "x div 2 ^ l' div 2 ^ (l - l') \<le> y div 2 ^ l' div 2 ^ (l - l')"
    by (rule div_le_mono)
  then have "x div 2 ^ l \<le> y div 2 ^ l"
    using assms(1) by (simp add: div_pow2_ge [symmetric])
  with assms(2) show False by simp
qed





lemma arb_length:
  assumes "a < 128" and "b < 128"
  shows "length (generateArbitrationSequence a b) = 33"
  unfolding arb_trace [OF assms]
  by (simp add: rev_upt_7 arb_bit_frames_def Let_def)

lemma arb_flags_at:
  assumes "a < 128" and "b < 128" and "n < 33"
  shows "masterAState (generateArbitrationSequence a b ! n)
           = Some (if b div 2 ^ frame_level n < a div 2 ^ frame_level n then Lost else Active)"
    and "masterBState (generateArbitrationSequence a b ! n)
           = Some (if a div 2 ^ frame_level n < b div 2 ^ frame_level n then Lost else Active)"
    and "masterAState (generateArbitrationSequence a b ! n) = Some Lost
           \<longrightarrow> sdaA (generateArbitrationSequence a b ! n) = Some 1"
    and "masterBState (generateArbitrationSequence a b ! n) = Some Lost
           \<longrightarrow> sdaB (generateArbitrationSequence a b ! n) = Some 1"
proof -
  let ?fs = "generateArbitrationSequence a b"
  let ?C = "concat (map (\<lambda>j. arb_bit_frames a b (3 + 3 * (6 - j)) j) (rev [0..<7]))"
  have lenC: "length ?C = 21"
    by (simp add: rev_upt_7 arb_bit_frames_def Let_def)
  consider (head3) "n < 3" | (addr) "3 \<le> n" "n < 24" | (tail9) "24 \<le> n"
    by arith
  then have "masterAState (?fs ! n)
           = Some (if b div 2 ^ frame_level n < a div 2 ^ frame_level n then Lost else Active)
    \<and> masterBState (?fs ! n)
           = Some (if a div 2 ^ frame_level n < b div 2 ^ frame_level n then Lost else Active)
    \<and> (masterAState (?fs ! n) = Some Lost \<longrightarrow> sdaA (?fs ! n) = Some 1)
    \<and> (masterBState (?fs ! n) = Some Lost \<longrightarrow> sdaB (?fs ! n) = Some 1)"
  proof cases
    case head3
    then have "n = 0 \<or> n = 1 \<or> n = 2" by arith
    then show ?thesis
      using assms(1,2) unfolding arb_trace [OF assms(1,2)]
      by (auto simp: frame_level_def arb_frame_def simp del: upt_Suc)
  next
    case addr
    define j where "j = 6 - (n - 3) div 3"
    define k where "k = (n - 3) mod 3"
    from addr have j: "j < 7" and k: "k < 3" and n: "n = bit_frame_index j k"
      and lvl: "frame_level n = j"
      unfolding j_def k_def bit_frame_index_def frame_level_def by auto
    show ?thesis
      unfolding lvl unfolding n arb_bit_frame_at [OF assms(1,2) j k]
      by (simp add: arb_frame_def)
  next
    case tail9
    with assms(3) have m: "n - 24 < 9" and n: "n = 3 + (21 + (n - 24))" by arith+
    from tail9 assms(3) have lvl: "frame_level n = 0" by (simp add: frame_level_def)
    let ?T = "[arb_frame 24 ''W'' 0 0 0 I2CAddress (1/2) (b < a) (a < b),
        arb_frame 25 ''W'' 0 0 1 I2CAddress (1/2) (b < a) (a < b),
        arb_frame 26 ''W'' 0 0 0 I2CAddress (1/2) (b < a) (a < b),
        ack_frame 27 0 (b < a) (a < b),
        ack_frame 28 1 (b < a) (a < b),
        ack_frame 29 0 (b < a) (a < b),
        arb_frame 30 ''Stop'' 0 0 0 I2CStop (1/2) (b < a) (a < b),
        arb_frame 31 ''Stop'' 0 0 1 I2CStop (1/2) (b < a) (a < b),
        arb_frame 32 ''Stop'' 1 1 1 I2CStop 1 (b < a) (a < b)]"
    have "?fs ! n = ?fs ! (3 + (21 + (n - 24)))" using n by simp
    also have "\<dots> = (?C @ ?T) ! (21 + (n - 24))"
      unfolding arb_trace [OF assms(1,2)] by (simp add: nth_append del: upt_Suc)
    also have "\<dots> = ?T ! (n - 24)"
      using lenC by (simp add: nth_append del: upt_Suc)
    finally have at: "?fs ! n = ?T ! (n - 24)" .
    from m have "n - 24 = 0 \<or> n - 24 = 1 \<or> n - 24 = 2 \<or> n - 24 = 3 \<or> n - 24 = 4
        \<or> n - 24 = 5 \<or> n - 24 = 6 \<or> n - 24 = 7 \<or> n - 24 = 8"
      by arith
    then show ?thesis
      unfolding at lvl
      by (elim disjE) (simp_all add: arb_frame_def ack_frame_def)
  qed
  then show "masterAState (?fs ! n)
           = Some (if b div 2 ^ frame_level n < a div 2 ^ frame_level n then Lost else Active)"
    and "masterBState (?fs ! n)
           = Some (if a div 2 ^ frame_level n < b div 2 ^ frame_level n then Lost else Active)"
    and "masterAState (?fs ! n) = Some Lost \<longrightarrow> sdaA (?fs ! n) = Some 1"
    and "masterBState (?fs ! n) = Some Lost \<longrightarrow> sdaB (?fs ! n) = Some 1"
    by blast+
qed

lemma frame_level_antimono: "m \<le> n \<Longrightarrow> frame_level n \<le> frame_level m"
  unfolding frame_level_def by auto


lemma arb_lost_persists:
  assumes "a < 128" and "b < 128" and "m \<le> n" and "n < 33"
  shows "masterAState (generateArbitrationSequence a b ! m) = Some Lost \<longrightarrow>
           masterAState (generateArbitrationSequence a b ! n) = Some Lost
           \<and> sdaA (generateArbitrationSequence a b ! n) = Some 1"
    and "masterBState (generateArbitrationSequence a b ! m) = Some Lost \<longrightarrow>
           masterBState (generateArbitrationSequence a b ! n) = Some Lost
           \<and> sdaB (generateArbitrationSequence a b ! n) = Some 1"
proof -
  from assms(3,4) have m: "m < 33" by simp
  note lv = frame_level_antimono [OF assms(3)]
  note at_m = arb_flags_at [OF assms(1,2) m]
  note at_n = arb_flags_at [OF assms(1,2,4)]
  show "masterAState (generateArbitrationSequence a b ! m) = Some Lost \<longrightarrow>
           masterAState (generateArbitrationSequence a b ! n) = Some Lost
           \<and> sdaA (generateArbitrationSequence a b ! n) = Some 1"
  proof
    assume "masterAState (generateArbitrationSequence a b ! m) = Some Lost"
    then have "b div 2 ^ frame_level m < a div 2 ^ frame_level m"
      unfolding at_m(1) by (simp split: if_splits)
    with lv have "b div 2 ^ frame_level n < a div 2 ^ frame_level n"
      by (rule lost_down)
    then have "masterAState (generateArbitrationSequence a b ! n) = Some Lost"
      unfolding at_n(1) by simp
    with at_n(3) show "masterAState (generateArbitrationSequence a b ! n) = Some Lost
           \<and> sdaA (generateArbitrationSequence a b ! n) = Some 1"
      by simp
  qed
  show "masterBState (generateArbitrationSequence a b ! m) = Some Lost \<longrightarrow>
           masterBState (generateArbitrationSequence a b ! n) = Some Lost
           \<and> sdaB (generateArbitrationSequence a b ! n) = Some 1"
  proof
    assume "masterBState (generateArbitrationSequence a b ! m) = Some Lost"
    then have "a div 2 ^ frame_level m < b div 2 ^ frame_level m"
      unfolding at_m(2) by (simp split: if_splits)
    with lv have "a div 2 ^ frame_level n < b div 2 ^ frame_level n"
      by (rule lost_down)
    then have "masterBState (generateArbitrationSequence a b ! n) = Some Lost"
      unfolding at_n(2) by simp
    with at_n(4) show "masterBState (generateArbitrationSequence a b ! n) = Some Lost
           \<and> sdaB (generateArbitrationSequence a b ! n) = Some 1"
      by simp
  qed
qed

lemma arb_frame_and:
  assumes "va < 2" and "vb < 2"
  shows "Some (sda (arb_frame n l va vb c ty d la lb))
     = wired_and (sdaA (arb_frame n l va vb c ty d la lb)) (sdaB (arb_frame n l va vb c ty d la lb))"
  using assms by (auto simp: arb_frame_def wired_and_def)

lemma arb_bus_at:
  assumes "a < 128" and "b < 128" and "n < 33"
  shows "if 27 \<le> n \<and> n < 30
         then i2c_type (generateArbitrationSequence a b ! n) = I2CAck
            \<and> sda (generateArbitrationSequence a b ! n) = 0
            \<and> sdaA (generateArbitrationSequence a b ! n) = Some 1
            \<and> sdaB (generateArbitrationSequence a b ! n) = Some 1
         else i2c_type (generateArbitrationSequence a b ! n) \<noteq> I2CAck
            \<and> Some (sda (generateArbitrationSequence a b ! n))
                = wired_and (sdaA (generateArbitrationSequence a b ! n))
                            (sdaB (generateArbitrationSequence a b ! n))"
proof -
  let ?fs = "generateArbitrationSequence a b"
  let ?C = "concat (map (\<lambda>j. arb_bit_frames a b (3 + 3 * (6 - j)) j) (rev [0..<7]))"
  have lenC: "length ?C = 21"
    by (simp add: rev_upt_7 arb_bit_frames_def Let_def)
  consider (head3) "n < 3" | (addr) "3 \<le> n" "n < 24" | (tail9) "24 \<le> n"
    by arith
  then show ?thesis
  proof cases
    case head3
    then have "n = 0 \<or> n = 1 \<or> n = 2" by arith
    then show ?thesis
      unfolding arb_trace [OF assms(1,2)]
      by (auto simp: arb_frame_def wired_and_def simp del: upt_Suc)
  next
    case addr
    define j where "j = 6 - (n - 3) div 3"
    define k where "k = (n - 3) mod 3"
    from addr have j: "j < 7" and k: "k < 3" and n: "n = bit_frame_index j k"
      unfolding j_def k_def bit_frame_index_def by auto
    from addr have out: "\<not> (27 \<le> n \<and> n < 30)" by simp
    have ty: "i2c_type (?fs ! n) \<noteq> I2CAck"
      unfolding n arb_bit_frame_at [OF assms(1,2) j k] by (simp add: arb_frame_def)
    have "Some (sda (?fs ! n)) = wired_and (sdaA (?fs ! n)) (sdaB (?fs ! n))"
      unfolding n arb_bit_frame_at [OF assms(1,2) j k]
      by (rule arb_frame_and) (rule bitAt_less_2)+
    with ty out show ?thesis by simp
  next
    case tail9
    with assms(3) have m: "n - 24 < 9" and n: "n = 3 + (21 + (n - 24))" by arith+
    let ?T = "[arb_frame 24 ''W'' 0 0 0 I2CAddress (1/2) (b < a) (a < b),
        arb_frame 25 ''W'' 0 0 1 I2CAddress (1/2) (b < a) (a < b),
        arb_frame 26 ''W'' 0 0 0 I2CAddress (1/2) (b < a) (a < b),
        ack_frame 27 0 (b < a) (a < b),
        ack_frame 28 1 (b < a) (a < b),
        ack_frame 29 0 (b < a) (a < b),
        arb_frame 30 ''Stop'' 0 0 0 I2CStop (1/2) (b < a) (a < b),
        arb_frame 31 ''Stop'' 0 0 1 I2CStop (1/2) (b < a) (a < b),
        arb_frame 32 ''Stop'' 1 1 1 I2CStop 1 (b < a) (a < b)]"
    have "?fs ! n = ?fs ! (3 + (21 + (n - 24)))" using n by simp
    also have "\<dots> = (?C @ ?T) ! (21 + (n - 24))"
      unfolding arb_trace [OF assms(1,2)] by (simp add: nth_append del: upt_Suc)
    also have "\<dots> = ?T ! (n - 24)"
      using lenC by (simp add: nth_append del: upt_Suc)
    finally have at: "?fs ! n = ?T ! (n - 24)" .
    from m have "n - 24 = 0 \<or> n - 24 = 1 \<or> n - 24 = 2 \<or> n - 24 = 3 \<or> n - 24 = 4
        \<or> n - 24 = 5 \<or> n - 24 = 6 \<or> n - 24 = 7 \<or> n - 24 = 8"
      by arith
    moreover from tail9
    have "(27 \<le> n \<and> n < 30) = (n - 24 = 3 \<or> n - 24 = 4 \<or> n - 24 = 5)" by arith
    ultimately show ?thesis
      unfolding at
      by (elim disjE) (simp_all add: arb_frame_def ack_frame_def wired_and_def)
  qed
qed






text \<open>
  C2, as the code has it. For every pair of 7-bit addresses the arbitration trace has
  33 frames. Frames 27, 28 and 29 are the acknowledge frames: there the bus SDA level
  is 0 although both recorded drive levels are 1, the slave holding the line. In every
  other frame the bus SDA level is the AND of the two recorded drive levels. Once a
  frame records a master as lost, every later frame of the trace records it as lost
  with drive level 1.
\<close>

theorem arbitration_bus_and_release:
  assumes "a < 128" and "b < 128"
  shows "length (generateArbitrationSequence a b) = 33
    \<and> (\<forall>n. 27 \<le> n \<and> n < 30 \<longrightarrow>
          i2c_type (generateArbitrationSequence a b ! n) = I2CAck
        \<and> sda (generateArbitrationSequence a b ! n) = 0
        \<and> sdaA (generateArbitrationSequence a b ! n) = Some 1
        \<and> sdaB (generateArbitrationSequence a b ! n) = Some 1)
    \<and> (\<forall>n. n < 33 \<and> \<not> (27 \<le> n \<and> n < 30) \<longrightarrow>
          i2c_type (generateArbitrationSequence a b ! n) \<noteq> I2CAck
        \<and> Some (sda (generateArbitrationSequence a b ! n))
            = wired_and (sdaA (generateArbitrationSequence a b ! n))
                        (sdaB (generateArbitrationSequence a b ! n)))
    \<and> (\<forall>m n. m \<le> n \<and> n < length (generateArbitrationSequence a b)
          \<and> masterAState (generateArbitrationSequence a b ! m) = Some Lost \<longrightarrow>
              masterAState (generateArbitrationSequence a b ! n) = Some Lost
            \<and> sdaA (generateArbitrationSequence a b ! n) = Some 1)
    \<and> (\<forall>m n. m \<le> n \<and> n < length (generateArbitrationSequence a b)
          \<and> masterBState (generateArbitrationSequence a b ! m) = Some Lost \<longrightarrow>
              masterBState (generateArbitrationSequence a b ! n) = Some Lost
            \<and> sdaB (generateArbitrationSequence a b ! n) = Some 1)"
proof -
  have ack: "i2c_type (generateArbitrationSequence a b ! n) = I2CAck
        \<and> sda (generateArbitrationSequence a b ! n) = 0
        \<and> sdaA (generateArbitrationSequence a b ! n) = Some 1
        \<and> sdaB (generateArbitrationSequence a b ! n) = Some 1"
    if "27 \<le> n" and "n < 30" for n
  proof -
    from that have "n < 33" by simp
    from arb_bus_at [OF assms this] that show ?thesis by simp
  qed
  have other: "i2c_type (generateArbitrationSequence a b ! n) \<noteq> I2CAck
        \<and> Some (sda (generateArbitrationSequence a b ! n))
            = wired_and (sdaA (generateArbitrationSequence a b ! n))
                        (sdaB (generateArbitrationSequence a b ! n))"
    if "n < 33" and "\<not> (27 \<le> n \<and> n < 30)" for n
    using arb_bus_at [OF assms that(1)] that(2) by simp
  from ack other arb_lost_persists [OF assms] show ?thesis
    unfolding arb_length [OF assms] by blast
qed

text \<open>
  With addresses 0x21 and 0x25 master B loses at bit 2; frame 15 is the first frame of
  that bit, frame 27 the first acknowledge frame, frame 32 the last frame.
\<close>

theorem arbitration_bus_and_release_witness:
  "(33::nat) < 128 \<and> (37::nat) < 128
   \<and> length (generateArbitrationSequence 33 37) = 33
   \<and> i2c_type (generateArbitrationSequence 33 37 ! 27) = I2CAck
   \<and> sda (generateArbitrationSequence 33 37 ! 27) = 0
   \<and> sdaA (generateArbitrationSequence 33 37 ! 27) = Some 1
   \<and> sdaB (generateArbitrationSequence 33 37 ! 27) = Some 1
   \<and> Some (sda (generateArbitrationSequence 33 37 ! 15))
        = wired_and (sdaA (generateArbitrationSequence 33 37 ! 15))
                    (sdaB (generateArbitrationSequence 33 37 ! 15))
   \<and> masterBState (generateArbitrationSequence 33 37 ! 15) = Some Lost
   \<and> masterBState (generateArbitrationSequence 33 37 ! 32) = Some Lost
   \<and> sdaB (generateArbitrationSequence 33 37 ! 32) = Some 1"
proof -
  have h: "(33::nat) < 128" "(37::nat) < 128" by simp_all
  note main = arbitration_bus_and_release [OF h]
  from main have len: "length (generateArbitrationSequence 33 37) = 33" by blast
  have lost15: "masterBState (generateArbitrationSequence 33 37 ! 15) = Some Lost"
    using arb_flags_at(2) [OF h, of 15] by (simp add: frame_level_def)
  from main
  have "(27::nat) \<le> 27 \<and> (27::nat) < 30 \<longrightarrow>
          i2c_type (generateArbitrationSequence 33 37 ! 27) = I2CAck
        \<and> sda (generateArbitrationSequence 33 37 ! 27) = 0
        \<and> sdaA (generateArbitrationSequence 33 37 ! 27) = Some 1
        \<and> sdaB (generateArbitrationSequence 33 37 ! 27) = Some 1"
    by blast
  then have ack27: "i2c_type (generateArbitrationSequence 33 37 ! 27) = I2CAck
        \<and> sda (generateArbitrationSequence 33 37 ! 27) = 0
        \<and> sdaA (generateArbitrationSequence 33 37 ! 27) = Some 1
        \<and> sdaB (generateArbitrationSequence 33 37 ! 27) = Some 1"
    by simp
  from main
  have "(15::nat) < 33 \<and> \<not> ((27::nat) \<le> 15 \<and> (15::nat) < 30) \<longrightarrow>
          Some (sda (generateArbitrationSequence 33 37 ! 15))
            = wired_and (sdaA (generateArbitrationSequence 33 37 ! 15))
                        (sdaB (generateArbitrationSequence 33 37 ! 15))"
    by blast
  then have and15: "Some (sda (generateArbitrationSequence 33 37 ! 15))
            = wired_and (sdaA (generateArbitrationSequence 33 37 ! 15))
                        (sdaB (generateArbitrationSequence 33 37 ! 15))"
    by simp
  from main
  have "(15::nat) \<le> 32 \<and> 32 < length (generateArbitrationSequence 33 37)
          \<and> masterBState (generateArbitrationSequence 33 37 ! 15) = Some Lost \<longrightarrow>
              masterBState (generateArbitrationSequence 33 37 ! 32) = Some Lost
            \<and> sdaB (generateArbitrationSequence 33 37 ! 32) = Some 1"
    by blast
  with lost15 len
  have "masterBState (generateArbitrationSequence 33 37 ! 32) = Some Lost
      \<and> sdaB (generateArbitrationSequence 33 37 ! 32) = Some 1"
    by simp
  with h len ack27 and15 lost15 show ?thesis by blast
qed

text \<open>
  The claim as stated fails at the acknowledge frames: frame 27 has bus level 0 while
  the AND of the two recorded drive levels is 1.
\<close>

theorem arbitration_ack_not_and:
  "sda (generateArbitrationSequence 33 37 ! 27) = 0
   \<and> wired_and (sdaA (generateArbitrationSequence 33 37 ! 27))
                (sdaB (generateArbitrationSequence 33 37 ! 27)) = Some 1
   \<and> \<not> (\<forall>f \<in> set (generateArbitrationSequence 33 37).
           Some (sda f) = wired_and (sdaA f) (sdaB f))"
proof -
  have h: "(33::nat) < 128" "(37::nat) < 128" by simp_all
  have at: "generateArbitrationSequence 33 37 ! 27 = ack_frame 27 0 False True"
    unfolding arb_trace [OF h]
    by (simp add: rev_upt_7 arb_bit_frames_def Let_def)
  have v: "sda (generateArbitrationSequence 33 37 ! 27) = 0"
    "wired_and (sdaA (generateArbitrationSequence 33 37 ! 27))
                (sdaB (generateArbitrationSequence 33 37 ! 27)) = Some 1"
    unfolding at by (simp_all add: ack_frame_def wired_and_def)
  have "generateArbitrationSequence 33 37 ! 27 \<in> set (generateArbitrationSequence 33 37)"
    by (rule nth_mem) (simp add: arb_length [OF h])
  with v have "\<not> (\<forall>f \<in> set (generateArbitrationSequence 33 37).
           Some (sda f) = wired_and (sdaA f) (sdaB f))"
    by force
  with v show ?thesis by simp
qed

section \<open>Rounding to the nearest integer\<close>

lemma rne_of_int: "rne (of_int k) = k"
  by (simp add: rne_def)

lemma rne_cases: "rne y = \<lfloor>y\<rfloor> \<or> rne y = \<lfloor>y\<rfloor> + 1"
  by (simp add: rne_def)

lemma rne_error: "\<bar>of_int (rne y) - y\<bar> \<le> 1/2"
proof -
  have "of_int \<lfloor>y\<rfloor> \<le> y" and "y < of_int \<lfloor>y\<rfloor> + 1" by linarith+
  then show ?thesis unfolding rne_def by (auto simp: abs_le_iff)
qed

lemma rne_mono:
  assumes "y \<le> z"
  shows "rne y \<le> rne z"
proof (cases "\<lfloor>y\<rfloor> = \<lfloor>z\<rfloor>")
  case True
  with assms show ?thesis unfolding rne_def by auto
next
  case False
  from assms have "\<lfloor>y\<rfloor> \<le> \<lfloor>z\<rfloor>" by (rule floor_mono)
  with False have "\<lfloor>y\<rfloor> + 1 \<le> \<lfloor>z\<rfloor>" by simp
  moreover have "rne y \<le> \<lfloor>y\<rfloor> + 1" using rne_cases [of y] by auto
  moreover have "\<lfloor>z\<rfloor> \<le> rne z" using rne_cases [of z] by auto
  ultimately show ?thesis by simp
qed

section \<open>The unit in the last place\<close>

lemma ulp_search_props:
  "e \<le> ulp_search x e \<and> x < 2 powi (ulp_search x e + 53)
   \<and> (ulp_search x e = e \<or> 2 powi (ulp_search x e + 52) \<le> x)"
proof (induction x e rule: ulp_search.induct)
  case (1 x e)
  show ?case
  proof (cases "2 powi (e + 53) \<le> x")
    case True
    then have s: "ulp_search x e = ulp_search x (e + 1)"
      by (subst ulp_search.simps) simp
    from "1.IH" [OF True] have ih: "e + 1 \<le> ulp_search x (e + 1)"
      "x < 2 powi (ulp_search x (e + 1) + 53)"
      "ulp_search x (e + 1) = e + 1 \<or> 2 powi (ulp_search x (e + 1) + 52) \<le> x"
      by simp_all
    from ih(3) True have "2 powi (ulp_search x (e + 1) + 52) \<le> x"
      by (auto simp: add.commute add.left_commute)
    with ih(1,2) show ?thesis unfolding s by simp
  next
    case False
    then have s: "ulp_search x e = e"
      by (subst ulp_search.simps) simp
    from False show ?thesis unfolding s by simp
  qed
qed

lemma ulp_exp_ge: "- 1074 \<le> ulp_exp x"
  using ulp_search_props [of "- 1074" "\<bar>x\<bar>"] by (simp add: ulp_exp_def)

lemma ulp_exp_upper: "\<bar>x\<bar> < 2 powi (ulp_exp x + 53)"
  using ulp_search_props [of "- 1074" "\<bar>x\<bar>"] by (simp add: ulp_exp_def)

lemma ulp_exp_lower: "ulp_exp x = - 1074 \<or> 2 powi (ulp_exp x + 52) \<le> \<bar>x\<bar>"
  using ulp_search_props [of "- 1074" "\<bar>x\<bar>"] by (simp add: ulp_exp_def)

lemma powi2_mono: "a \<le> b \<Longrightarrow> (2::real) powi a \<le> 2 powi b"
  by (rule power_int_increasing) simp_all

lemma powi2_less_cancel: "(2::real) powi a < 2 powi b \<Longrightarrow> a < b"
  using powi2_mono [of b a] by (cases "a < b") auto

lemma ulp_exp_eqI:
  assumes "- 1074 \<le> k" and "\<bar>x\<bar> < 2 powi (k + 53)"
    and "k = - 1074 \<or> 2 powi (k + 52) \<le> \<bar>x\<bar>"
  shows "ulp_exp x = k"
proof (rule antisym)
  show "ulp_exp x \<le> k"
  proof (rule ccontr)
    assume "\<not> ulp_exp x \<le> k"
    then have gt: "k < ulp_exp x" by simp
    with assms(1) have "ulp_exp x \<noteq> - 1074" by simp
    with ulp_exp_lower [of x] have "2 powi (ulp_exp x + 52) \<le> \<bar>x\<bar>" by simp
    with assms(2) have "(2::real) powi (ulp_exp x + 52) < 2 powi (k + 53)" by simp
    then have "ulp_exp x + 52 < k + 53" by (rule powi2_less_cancel)
    with gt show False by simp
  qed
  show "k \<le> ulp_exp x"
  proof (rule ccontr)
    assume "\<not> k \<le> ulp_exp x"
    then have lt: "ulp_exp x < k" by simp
    with ulp_exp_ge [of x] have "k \<noteq> - 1074" by simp
    with assms(3) have "2 powi (k + 52) \<le> \<bar>x\<bar>" by simp
    with ulp_exp_upper [of x] have "(2::real) powi (k + 52) < 2 powi (ulp_exp x + 53)" by simp
    then have "k + 52 < ulp_exp x + 53" by (rule powi2_less_cancel)
    with lt show False by simp
  qed
qed


section \<open>Rounding to a double\<close>

lemma powi2_le_cancel: "(2::real) powi a \<le> 2 powi b \<Longrightarrow> a \<le> b"
proof (rule ccontr)
  assume le: "(2::real) powi a \<le> 2 powi b" and "\<not> a \<le> b"
  then have "b + 1 \<le> a" by simp
  then have "(2::real) powi (b + 1) \<le> 2 powi a" by (rule powi2_mono)
  with le have "(2::real) powi (b + 1) \<le> 2 powi b" by simp
  then show False by (simp add: power_int_add)
qed

lemma round_fin_zero: "round_fin 0 = 0"
  by (simp add: round_fin_def rne_def)

lemma round_fin_nonneg:
  assumes "0 \<le> x"
  shows "0 \<le> round_fin x"
proof -
  from assms have "0 \<le> x / 2 powi ulp_exp x" by simp
  then have "rne 0 \<le> rne (x / 2 powi ulp_exp x)" by (rule rne_mono)
  then have "0 \<le> rne (x / 2 powi ulp_exp x)" using rne_of_int [of 0] by simp
  then show ?thesis by (simp add: round_fin_def)
qed

lemma round_fin_evalI:
  assumes "- 1074 \<le> k" and "\<bar>x\<bar> < 2 powi (k + 53)"
    and "k = - 1074 \<or> 2 powi (k + 52) \<le> \<bar>x\<bar>"
  shows "round_fin x = of_int (rne (x / 2 powi k)) * 2 powi k"
  unfolding round_fin_def ulp_exp_eqI [OF assms] ..

lemma round_fin_exactI:
  assumes x: "x = of_int m * 2 powi q" and m: "\<bar>m\<bar> < 2 ^ 53" and q: "- 1074 \<le> q"
  shows "round_fin x = x"
proof -
  define e where "e = ulp_exp x"
  have ax: "\<bar>x\<bar> = of_int \<bar>m\<bar> * 2 powi q"
    unfolding x by (simp add: abs_mult)
  have "e \<le> q"
  proof (cases "e = - 1074")
    case True
    with q show ?thesis by simp
  next
    case False
    with ulp_exp_lower [of x] have "2 powi (e + 52) \<le> \<bar>x\<bar>" by (simp add: e_def)
    also from m have "\<bar>x\<bar> < 2 ^ 53 * 2 powi q"
      unfolding ax by (simp add: of_int_less_iff [where 'a = real, symmetric] del: of_int_less_iff)
    also have "(2::real) ^ 53 * 2 powi q = 2 powi (q + 53)"
      by (simp add: power_int_add)
    finally have "(2::real) powi (e + 52) < 2 powi (q + 53)" .
    then have "e + 52 < q + 53" by (rule powi2_less_cancel)
    then show ?thesis by simp
  qed
  then have ge: "0 \<le> q - e" by simp
  have "(2::real) powi q = 2 powi (e + (q - e))" by simp
  also have "\<dots> = 2 powi e * 2 powi (q - e)" by (rule power_int_add) simp
  also from ge have "(2::real) powi (q - e) = 2 ^ nat (q - e)" by (simp add: power_int_def)
  finally have split: "(2::real) powi q = 2 powi e * 2 ^ nat (q - e)" .
  then have "x / 2 powi e = of_int (m * 2 ^ nat (q - e))"
    unfolding x by simp
  then have "rne (x / 2 powi e) = m * 2 ^ nat (q - e)"
    by (simp only: rne_of_int)
  then have "round_fin x = of_int (m * 2 ^ nat (q - e)) * 2 powi e"
    by (simp add: round_fin_def e_def)
  also have "\<dots> = x"
    unfolding x split by simp
  finally show ?thesis .
qed

lemma rne_bounds:
  assumes "\<bar>y\<bar> < of_int k"
  shows "\<bar>rne y\<bar> \<le> k"
proof -
  from assms have lo: "of_int (- k) \<le> y" and hi: "y \<le> of_int k" by simp_all
  from lo have "rne (of_int (- k)) \<le> rne y" by (rule rne_mono)
  moreover from hi have "rne y \<le> rne (of_int k)" by (rule rne_mono)
  ultimately have "- k \<le> rne y" and "rne y \<le> k"
    by (simp_all only: rne_of_int)
  then show ?thesis by simp
qed

lemma round_fin_idem: "round_fin (round_fin x) = round_fin x"
proof -
  define e where "e = ulp_exp x"
  define k where "k = rne (x / 2 powi e)"
  have r: "round_fin x = of_int k * 2 powi e"
    by (simp add: round_fin_def e_def k_def)
  have "\<bar>x\<bar> / 2 powi e < 2 powi (e + 53) / 2 powi e"
    using ulp_exp_upper [of x] by (simp add: e_def divide_strict_right_mono)
  then have "\<bar>x / 2 powi e\<bar> < of_int (2 ^ 53)"
    by (simp add: power_int_add)
  then have kb: "\<bar>k\<bar> \<le> 2 ^ 53" unfolding k_def by (rule rne_bounds)
  have e: "- 1074 \<le> e" unfolding e_def by (rule ulp_exp_ge)
  show ?thesis
  proof (cases "\<bar>k\<bar> < 2 ^ 53")
    case True
    from r True e show ?thesis by (rule round_fin_exactI)
  next
    case False
    with kb have "k = 2 ^ 53 \<or> k = - (2 ^ 53)" by auto
    then obtain h :: int where h: "k = 2 * h" and hb: "\<bar>h\<bar> < 2 ^ 53"
    proof
      assume "k = 2 ^ 53"
      then have "k = 2 * 2 ^ 52" and "\<bar>(2::int) ^ 52\<bar> < 2 ^ 53" by simp_all
      then show ?thesis by (rule that)
    next
      assume "k = - (2 ^ 53)"
      then have "k = 2 * (- (2 ^ 52))" and "\<bar>- ((2::int) ^ 52)\<bar> < 2 ^ 53" by simp_all
      then show ?thesis by (rule that)
    qed
    have "(2::real) powi (e + 1) = 2 powi e * 2"
      by (simp add: power_int_add)
    then have "round_fin x = of_int h * 2 powi (e + 1)"
      unfolding r h by simp
    moreover note hb
    moreover from e have "- 1074 \<le> e + 1" by simp
    ultimately show ?thesis by (rule round_fin_exactI)
  qed
qed

lemma round_fin_error: "\<bar>round_fin x - x\<bar> \<le> 2 powi ulp_exp x / 2"
proof -
  let ?u = "(2::real) powi ulp_exp x"
  have u: "0 < ?u" by simp
  have "\<bar>of_int (rne (x / ?u)) - x / ?u\<bar> * ?u \<le> 1/2 * ?u"
    using rne_error [of "x / ?u"] u by (intro mult_right_mono) simp_all
  moreover have "\<bar>of_int (rne (x / ?u)) - x / ?u\<bar> * ?u = \<bar>round_fin x - x\<bar>"
  proof -
    have "(of_int (rne (x / ?u)) - x / ?u) * ?u = round_fin x - x"
      using u by (simp add: round_fin_def left_diff_distrib)
    then have "\<bar>round_fin x - x\<bar> = \<bar>of_int (rne (x / ?u)) - x / ?u\<bar> * \<bar>?u\<bar>"
      by (simp only: abs_mult [symmetric])
    with u show ?thesis by simp
  qed
  ultimately show ?thesis by simp
qed

lemma round_fin_error_rel: "\<bar>round_fin x - x\<bar> \<le> \<bar>x\<bar> / 2 ^ 53 + 1 / 2 ^ 1075"
proof (cases "ulp_exp x = - 1074")
  case True
  have "(2::real) powi (- 1074) / 2 = 1 / 2 ^ 1075"
    by (simp add: power_int_minus divide_simps)
  with round_fin_error [of x] True have "\<bar>round_fin x - x\<bar> \<le> 1 / 2 ^ 1075" by simp
  moreover have "0 \<le> \<bar>x\<bar> / 2 ^ 53" by simp
  ultimately show ?thesis by linarith
next
  case False
  with ulp_exp_lower [of x] have "2 powi (ulp_exp x + 52) \<le> \<bar>x\<bar>" by simp
  then have "2 powi (ulp_exp x + 52) / 2 ^ 53 \<le> \<bar>x\<bar> / 2 ^ 53"
    by (simp add: divide_right_mono)
  moreover have "(2::real) powi (ulp_exp x + 52) / 2 ^ 53 = 2 powi ulp_exp x / 2"
    by (simp add: power_int_add)
  ultimately have "2 powi ulp_exp x / 2 \<le> \<bar>x\<bar> / 2 ^ 53" by simp
  with round_fin_error [of x] have "\<bar>round_fin x - x\<bar> \<le> \<bar>x\<bar> / 2 ^ 53" by simp
  moreover have "(0::real) \<le> 1 / 2 ^ 1075" by simp
  ultimately show ?thesis by linarith
qed


lemma ulp_exp_mono:
  assumes "\<bar>x\<bar> \<le> \<bar>y\<bar>"
  shows "ulp_exp x \<le> ulp_exp y"
proof (rule ccontr)
  assume "\<not> ulp_exp x \<le> ulp_exp y"
  then have lt: "ulp_exp y < ulp_exp x" by simp
  with ulp_exp_ge [of y] have "ulp_exp x \<noteq> - 1074" by simp
  with ulp_exp_lower [of x] have "2 powi (ulp_exp x + 52) \<le> \<bar>x\<bar>" by simp
  with assms ulp_exp_upper [of y] have "(2::real) powi (ulp_exp x + 52) < 2 powi (ulp_exp y + 53)"
    by linarith
  then have "ulp_exp x + 52 < ulp_exp y + 53" by (rule powi2_less_cancel)
  with lt show False by simp
qed

lemma powi2_shift: "(2::real) ^ n * 2 powi e = 2 powi (e + int n)"
  by (simp add: power_int_add)

lemma scaled_upper:
  fixes x :: real
  assumes "\<bar>x\<bar> < 2 powi (e + 53)"
  shows "\<bar>x / 2 powi e\<bar> < of_int (2 ^ 53)"
proof -
  have "\<bar>x\<bar> / 2 powi e < 2 powi (e + 53) / 2 powi e"
    using assms by (simp add: divide_strict_right_mono)
  then show ?thesis by (simp add: power_int_add)
qed

lemma scaled_lower:
  fixes y :: real
  assumes "2 powi (e + 52) \<le> y"
  shows "of_int (2 ^ 52) \<le> y / 2 powi e"
proof -
  have "2 powi (e + 52) / 2 powi e \<le> y / 2 powi e"
    using assms by (simp add: divide_right_mono)
  then show ?thesis by (simp add: power_int_add)
qed

lemma mantissa_upper: "\<bar>rne (x / 2 powi ulp_exp x)\<bar> \<le> 2 ^ 53"
  using ulp_exp_upper [of x] by (intro rne_bounds scaled_upper)

lemma round_fin_upper: "round_fin x \<le> 2 powi (ulp_exp x + 53)"
proof -
  have "rne (x / 2 powi ulp_exp x) \<le> 2 ^ 53" using mantissa_upper [of x] by linarith
  then have "real_of_int (rne (x / 2 powi ulp_exp x)) \<le> real_of_int (2 ^ 53)"
    by (rule of_int_le_iff [THEN iffD2])
  then have "real_of_int (rne (x / 2 powi ulp_exp x)) * 2 powi ulp_exp x
      \<le> real_of_int (2 ^ 53) * 2 powi ulp_exp x"
    by (rule mult_right_mono) simp
  also have "real_of_int (2 ^ 53) * 2 powi ulp_exp x = 2 powi (ulp_exp x + 53)"
    using powi2_shift [of 53 "ulp_exp x"] by simp
  finally show ?thesis by (simp only: round_fin_def)
qed

lemma round_fin_lower:
  assumes "ulp_exp y \<noteq> - 1074" and "0 \<le> y"
  shows "2 powi (ulp_exp y + 52) \<le> round_fin y"
proof -
  from assms(1) ulp_exp_lower [of y] have "2 powi (ulp_exp y + 52) \<le> \<bar>y\<bar>" by simp
  with assms(2) have "2 powi (ulp_exp y + 52) \<le> y" by simp
  then have "of_int (2 ^ 52) \<le> y / 2 powi ulp_exp y" by (rule scaled_lower)
  then have "rne (of_int (2 ^ 52)) \<le> rne (y / 2 powi ulp_exp y)" by (rule rne_mono)
  then have "2 ^ 52 \<le> rne (y / 2 powi ulp_exp y)" by (simp only: rne_of_int)
  then have "real_of_int (2 ^ 52) \<le> real_of_int (rne (y / 2 powi ulp_exp y))"
    by (rule of_int_le_iff [THEN iffD2])
  then have "real_of_int (2 ^ 52) * 2 powi ulp_exp y
      \<le> real_of_int (rne (y / 2 powi ulp_exp y)) * 2 powi ulp_exp y"
    by (rule mult_right_mono) simp
  moreover have "real_of_int (2 ^ 52) * 2 powi ulp_exp y = 2 powi (ulp_exp y + 52)"
    using powi2_shift [of 52 "ulp_exp y"] by simp
  ultimately show ?thesis by (simp only: round_fin_def)
qed

lemma round_fin_mono_nonneg:
  assumes "0 \<le> x" and "x \<le> y"
  shows "round_fin x \<le> round_fin y"
proof -
  from assms have "\<bar>x\<bar> \<le> \<bar>y\<bar>" by simp
  then have le: "ulp_exp x \<le> ulp_exp y" by (rule ulp_exp_mono)
  show ?thesis
  proof (cases "ulp_exp x = ulp_exp y")
    case True
    from assms(2) have "x / 2 powi ulp_exp y \<le> y / 2 powi ulp_exp y"
      by (simp add: divide_right_mono)
    then have "rne (x / 2 powi ulp_exp y) \<le> rne (y / 2 powi ulp_exp y)" by (rule rne_mono)
    then have "real_of_int (rne (x / 2 powi ulp_exp y)) \<le> real_of_int (rne (y / 2 powi ulp_exp y))"
      by (rule of_int_le_iff [THEN iffD2])
    then have "real_of_int (rne (x / 2 powi ulp_exp y)) * 2 powi ulp_exp y
        \<le> real_of_int (rne (y / 2 powi ulp_exp y)) * 2 powi ulp_exp y"
      by (rule mult_right_mono) simp
    then show ?thesis by (simp only: round_fin_def True)
  next
    case False
    with le have "ulp_exp x + 53 \<le> ulp_exp y + 52" by simp
    then have "(2::real) powi (ulp_exp x + 53) \<le> 2 powi (ulp_exp y + 52)"
      by (rule powi2_mono)
    moreover note round_fin_upper [of x]
    moreover from False le ulp_exp_ge [of x] have "ulp_exp y \<noteq> - 1074" by simp
    then have "2 powi (ulp_exp y + 52) \<le> round_fin y"
      using assms by (intro round_fin_lower) simp_all
    ultimately show ?thesis by linarith
  qed
qed

section \<open>Finite doubles\<close>


lemma is_doubleI:
  assumes "x = of_int m * 2 powi q" and "\<bar>m\<bar> < 2 ^ 53" and "- 1074 \<le> q" and "\<bar>x\<bar> < 2 ^ 1024"
  shows "is_double x"
  unfolding is_double_def using round_fin_exactI [OF assms(1,2,3)] assms(4) by simp


lemma round_double_Num: "\<bar>round_fin x\<bar> < 2 ^ 1024 \<Longrightarrow> round_double x = Num (round_fin x)"
  by (auto simp: round_double_def)


lemma round_double_exact: "is_double x \<Longrightarrow> round_double x = Num x"
  by (auto simp: round_double_def is_double_def)


lemma is_double_round: "\<bar>round_fin x\<bar> < 2 ^ 1024 \<Longrightarrow> is_double (round_fin x)"
  by (simp add: is_double_def round_fin_idem)


lemma round_bounded:
  assumes "0 \<le> x" and "x \<le> B" and "is_double B"
  shows "round_double x = Num (round_fin x)" and "0 \<le> round_fin x" and "round_fin x \<le> B"
    and "is_double (round_fin x)"
proof -
  show nn: "0 \<le> round_fin x" using assms(1) by (rule round_fin_nonneg)
  from assms(1,2) have "round_fin x \<le> round_fin B" by (rule round_fin_mono_nonneg)
  with assms(3) show le: "round_fin x \<le> B" by (simp add: is_double_def)
  from assms(3) have "\<bar>B\<bar> < 2 ^ 1024" by (simp add: is_double_def)
  with nn le have b: "\<bar>round_fin x\<bar> < 2 ^ 1024" by simp
  then show "round_double x = Num (round_fin x)" by (rule round_double_Num)
  from b show "is_double (round_fin x)" by (rule is_double_round)
qed


section \<open>Symmetry and monotonicity of rounding\<close>

lemma rne_neg: "rne (- y) = - rne y"
proof (cases "y = of_int \<lfloor>y\<rfloor>")
  case True
  then have "rne (- y) = rne (of_int (- \<lfloor>y\<rfloor>))" by simp
  also have "\<dots> = - \<lfloor>y\<rfloor>" by (rule rne_of_int)
  also have "\<lfloor>y\<rfloor> = rne (of_int \<lfloor>y\<rfloor>)" by (simp only: rne_of_int)
  also have "\<dots> = rne y" using True by simp
  finally show ?thesis .
next
  case False
  define f where "f = \<lfloor>y\<rfloor>"
  define d where "d = y - of_int f"
  have d: "0 \<le> d" "d < 1" unfolding d_def f_def by linarith+
  from False have "d \<noteq> 0" unfolding d_def f_def by simp
  with d have dpos: "0 < d" by simp
  have "\<lfloor>- y\<rfloor> = - f - 1"
  proof (rule floor_unique)
    show "of_int (- f - 1) \<le> - y" using d(2) unfolding d_def by simp
    show "- y < of_int (- f - 1) + 1" using dpos unfolding d_def by simp
  qed
  then have fl: "\<lfloor>- y\<rfloor> = - f - 1" .
  have fr: "- y - real_of_int (- f - 1) = 1 - d" unfolding d_def by simp
  have ry: "rne y = (if d < 1/2 then f else if 1/2 < d then f + 1
      else if even f then f else f + 1)"
    by (simp only: rne_def d_def f_def)
  have rny: "rne (- y) = (if 1 - d < 1/2 then - f - 1 else if 1/2 < 1 - d then - f - 1 + 1
      else if even (- f - 1) then - f - 1 else - f - 1 + 1)"
    unfolding rne_def [of "- y"] fl fr ..
  consider "d < 1/2" | "1/2 < d" | "d = 1/2" by linarith
  then show ?thesis
  proof cases
    case 1
    then show ?thesis unfolding ry rny by simp
  next
    case 2
    then show ?thesis unfolding ry rny by simp
  next
    case 3
    then show ?thesis unfolding ry rny by simp
  qed
qed

lemma ulp_exp_neg: "ulp_exp (- x) = ulp_exp x"
  by (simp add: ulp_exp_def)

lemma round_fin_neg: "round_fin (- x) = - round_fin x"
proof -
  have "round_fin (- x) = of_int (rne (- (x / 2 powi ulp_exp x))) * 2 powi ulp_exp x"
    unfolding round_fin_def ulp_exp_neg by simp
  also have "\<dots> = - (of_int (rne (x / 2 powi ulp_exp x)) * 2 powi ulp_exp x)"
    unfolding rne_neg by simp
  finally show ?thesis unfolding round_fin_def .
qed

lemma round_fin_nonpos:
  assumes "x \<le> 0"
  shows "round_fin x \<le> 0"
proof -
  from assms have "0 \<le> round_fin (- x)" by (intro round_fin_nonneg) simp
  then show ?thesis unfolding round_fin_neg by simp
qed

lemma round_fin_mono:
  assumes "x \<le> y"
  shows "round_fin x \<le> round_fin y"
proof -
  consider "0 \<le> x" | "y \<le> 0" | "x < 0" "0 < y" by linarith
  then show ?thesis
  proof cases
    case 1
    from 1 assms show ?thesis by (rule round_fin_mono_nonneg)
  next
    case 2
    with assms have "0 \<le> - y" and "- y \<le> - x" by simp_all
    then have "round_fin (- y) \<le> round_fin (- x)" by (rule round_fin_mono_nonneg)
    then show ?thesis unfolding round_fin_neg by simp
  next
    case 3
    from 3(1) have "round_fin x \<le> 0" by (intro round_fin_nonpos) simp
    moreover from 3(2) have "0 \<le> round_fin y" by (intro round_fin_nonneg) simp
    ultimately show ?thesis by simp
  qed
qed

section \<open>Bounds on rounded results\<close>

lemma is_double_neg: "is_double x \<Longrightarrow> is_double (- x)"
  unfolding is_double_def round_fin_neg by simp

lemma is_double_0: "is_double 0"
  unfolding is_double_def round_fin_zero by simp

lemma is_double_of_int:
  assumes "\<bar>k\<bar> < 2 ^ 53"
  shows "is_double (of_int k)"
proof -
  have "real_of_int k = of_int k * 2 powi 0" by simp
  moreover note assms
  moreover have "- 1074 \<le> (0::int)" by simp
  moreover have "\<bar>real_of_int k\<bar> < 2 ^ 1024"
  proof -
    from assms have "real_of_int \<bar>k\<bar> < real_of_int (2 ^ 53)" by (rule of_int_less_iff [THEN iffD2])
    then have "\<bar>real_of_int k\<bar> < 2 ^ 53" by simp
    also have "(2::real) ^ 53 \<le> 2 ^ 1024" by (rule power_increasing) simp_all
    finally show ?thesis .
  qed
  ultimately show ?thesis by (rule is_doubleI)
qed

lemma is_double_1: "is_double 1"
  using is_double_of_int [of 1] by simp

lemma is_double_100: "is_double 100"
  using is_double_of_int [of 100] by simp

lemma is_double_fixed: "is_double x \<Longrightarrow> round_fin x = x"
  by (simp add: is_double_def)

lemma is_double_bound: "is_double x \<Longrightarrow> \<bar>x\<bar> < 2 ^ 1024"
  by (simp add: is_double_def)

lemma double_pos_ge:
  assumes "is_double s" and "0 < s"
  shows "1 / 2 ^ 1074 \<le> s"
proof -
  define m where "m = rne (s / 2 powi ulp_exp s)"
  have s: "s = of_int m * 2 powi ulp_exp s"
    using is_double_fixed [OF assms(1)] unfolding round_fin_def m_def by simp
  have u: "(0::real) < 2 powi ulp_exp s" by simp
  have "0 < real_of_int m"
  proof (rule ccontr)
    assume "\<not> 0 < real_of_int m"
    then have "real_of_int m \<le> 0" by simp
    with u have "real_of_int m * 2 powi ulp_exp s \<le> 0" by (simp add: mult_le_0_iff)
    with s assms(2) show False by simp
  qed
  then have "1 \<le> real_of_int m" by simp
  with u have "1 * 2 powi ulp_exp s \<le> real_of_int m * 2 powi ulp_exp s"
    by (intro mult_right_mono) simp_all
  with s have "2 powi ulp_exp s \<le> s" by simp
  moreover have "(2::real) powi (- 1074) \<le> 2 powi ulp_exp s"
    using ulp_exp_ge [of s] by (rule powi2_mono)
  moreover have "(2::real) powi (- 1074) = 1 / 2 ^ 1074"
    by (simp add: power_int_minus divide_simps)
  ultimately show ?thesis by linarith
qed

lemma round_in:
  assumes "0 \<le> x" and "x \<le> B" and "is_double B"
  shows "round_double x = Num (round_fin x)"
    and "0 \<le> round_fin x" and "round_fin x \<le> B" and "is_double (round_fin x)"
    and "\<bar>round_fin x - x\<bar> \<le> B / 2 ^ 53 + 1 / 2 ^ 1075"
proof -
  from assms show "round_double x = Num (round_fin x)" by (rule round_bounded)
  from assms show "0 \<le> round_fin x" by (rule round_bounded)
  from assms show "round_fin x \<le> B" by (rule round_bounded)
  from assms show "is_double (round_fin x)" by (rule round_bounded)
  from assms(1,2) have "\<bar>x\<bar> / 2 ^ 53 \<le> B / 2 ^ 53" by (simp add: divide_right_mono)
  with round_fin_error_rel [of x] show "\<bar>round_fin x - x\<bar> \<le> B / 2 ^ 53 + 1 / 2 ^ 1075"
    by linarith
qed

lemma round_in_neg:
  assumes "- B \<le> x" and "x \<le> 0" and "is_double B"
  shows "round_double x = Num (round_fin x)"
    and "- B \<le> round_fin x" and "round_fin x \<le> 0"
proof -
  from assms(2) show np: "round_fin x \<le> 0" by (rule round_fin_nonpos)
  from assms(1) have "round_fin (- B) \<le> round_fin x" by (rule round_fin_mono)
  with assms(3) show lo: "- B \<le> round_fin x"
    unfolding round_fin_neg by (simp add: is_double_fixed)
  from is_double_bound [OF assms(3)] np lo have "\<bar>round_fin x\<bar> < 2 ^ 1024" by linarith
  then show "round_double x = Num (round_fin x)" by (rule round_double_Num)
qed

lemma round_above:
  assumes "0 \<le> B" and "B \<le> x" and "is_double B"
  shows "jge (round_double x) (Num B)"
proof -
  from assms(2) have "round_fin B \<le> round_fin x" by (rule round_fin_mono)
  with assms(3) have le: "B \<le> round_fin x" by (simp add: is_double_fixed)
  show ?thesis
  proof (cases "2 ^ 1024 \<le> round_fin x")
    case True
    then have "round_double x = PosInf" unfolding round_double_def by (simp only: if_True)
    then show ?thesis by simp
  next
    case False
    with le assms(1) have "\<bar>round_fin x\<bar> < 2 ^ 1024" by linarith
    then have "round_double x = Num (round_fin x)" by (rule round_double_Num)
    with le show ?thesis by simp
  qed
qed

lemma round_double_evalI:
  assumes "round_fin x = y" and "\<bar>y\<bar> < 2 ^ 1024"
  shows "round_double x = Num y"
  using round_double_Num [of x] assms by simp

text \<open>The double nearest to 3.3, and its half.\<close>

lemma is_double_3_3: "is_double (3715469692580659 / 1125899906842624)"
proof -
  have "(3715469692580659 / 1125899906842624 :: real) = of_int 3715469692580659 * 2 powi (- 50)"
    by (simp add: power_int_minus)
  then show ?thesis by (rule is_doubleI) simp_all
qed

lemma is_double_1_65: "is_double (3715469692580659 / 2251799813685248)"
proof -
  have "(3715469692580659 / 2251799813685248 :: real) = of_int 3715469692580659 * 2 powi (- 51)"
    by (simp add: power_int_minus)
  then show ?thesis by (rule is_doubleI) simp_all
qed

lemma is_double_3: "is_double 3"
  using is_double_of_int [of 3] by simp

lemma is_double_half: "is_double (1 / 2)"
proof -
  have "(1 / 2 :: real) = of_int 1 * 2 powi (- 1)"
    by (simp add: power_int_minus)
  then show ?thesis by (rule is_doubleI) simp_all
qed


section \<open>DAC ladder: what is masked and what is not\<close>

lemma int_bit_of_mod:
  assumes "k < n"
  shows "((D mod 2 ^ n) div 2 ^ k) mod 2 = (D div 2 ^ k) mod (2::int)"
proof -
  have "bit (take_bit n D) k = bit D k"
    using assms by (simp add: bit_take_bit_iff)
  then have "odd ((D mod 2 ^ n) div 2 ^ k) = odd (D div 2 ^ k)"
    by (simp add: bit_iff_odd take_bit_eq_mod)
  then show ?thesis by (simp add: mod2_eq_if)
qed

lemma js_bit_masked:
  assumes "0 \<le> i" and "i < N"
  shows "js_bit (D mod 2 ^ nat N) i = js_bit D i"
proof -
  have "i mod 32 \<le> i" using assms(1) by (simp add: zmod_le_nonneg_dividend)
  with assms have "nat (i mod 32) < nat N" by simp
  then show ?thesis unfolding js_bit_def by (rule int_bit_of_mod)
qed

lemma bits_masked: "bits N D = bits N (D mod 2 ^ nat N)"
  unfolding bits_def by (simp add: js_bit_masked)

lemma round_double_nonneg_cases:
  assumes "0 \<le> x"
  shows "round_double x = PosInf \<or> (round_double x = Num (round_fin x) \<and> 0 \<le> round_fin x)"
proof (cases "2 ^ 1024 \<le> round_fin x")
  case True
  then have "round_double x = PosInf" unfolding round_double_def by (simp only: if_True)
  then show ?thesis ..
next
  case False
  from assms have nn: "0 \<le> round_fin x" by (rule round_fin_nonneg)
  with False have "\<bar>round_fin x\<bar> < 2 ^ 1024" by linarith
  then have "round_double x = Num (round_fin x)" by (rule round_double_Num)
  with nn show ?thesis by blast
qed

lemma is_double_min: "is_double (1 / 2 ^ 1074)"
proof -
  have "(1 / 2 ^ 1074 :: real) = of_int 1 * 2 powi (- 1074)"
    by (simp add: power_int_minus divide_simps)
  moreover have "\<bar>1::int\<bar> < 2 ^ 53" by simp
  moreover have "- 1074 \<le> (- 1074 :: int)" by simp
  moreover have "\<bar>1 / 2 ^ 1074 :: real\<bar> < 2 ^ 1024"
  proof -
    have "(1 / 2 ^ 1074 :: real) \<le> 1" by (simp add: divide_simps del: power_numeral)
    moreover have "(1::real) < 2 ^ 1024" by (rule one_less_power) simp_all
    moreover have "(0::real) \<le> 1 / 2 ^ 1074" by simp
    ultimately show ?thesis by linarith
  qed
  ultimately show ?thesis by (rule is_doubleI)
qed

lemma round_fin_negative:
  assumes "x \<le> - (1 / 2 ^ 1074)"
  shows "round_fin x < 0"
proof -
  from assms have "round_fin x \<le> round_fin (- (1 / 2 ^ 1074))" by (rule round_fin_mono)
  also have "\<dots> = - (1 / 2 ^ 1074)"
    using is_double_neg [OF is_double_min] by (rule is_double_fixed)
  also have "\<dots> < (0::real)" by simp
  finally show ?thesis .
qed

lemma round_double_negative:
  assumes "x \<le> - (1 / 2 ^ 1074)"
  shows "\<not> jge (round_double x) (Num 0)" and "round_double x \<noteq> Num y \<or> y < 0"
proof -
  from assms have neg: "round_fin x < 0" by (rule round_fin_negative)
  then have np: "\<not> 2 ^ 1024 \<le> round_fin x" by simp
  show "\<not> jge (round_double x) (Num 0)"
    unfolding round_double_def using neg np by simp
  show "round_double x \<noteq> Num y \<or> y < 0"
    unfolding round_double_def using neg np by auto
qed

text \<open>The step \<^verbatim>\<open>vRef / Math.pow(2, resolution)\<close> where it is computed without rounding.\<close>

lemma step_exact:
  assumes "1 \<le> N" and "N \<le> 1023" and "is_double (vRef / 2 ^ nat N)"
  shows "stepSize N (Num vRef) = Num (vRef / 2 ^ nat N)"
proof -
  from assms(1,2) have "jpow2 N = Num (2 powi N)" by (simp add: jpow2_def)
  also from assms(1) have "(2::real) powi N = 2 ^ nat N" by (simp add: power_int_def)
  finally have "stepSize N (Num vRef) = round_double (vRef / 2 ^ nat N)"
    by (simp add: stepSize_def)
  also from assms(3) have "\<dots> = Num (vRef / 2 ^ nat N)" by (rule round_double_exact)
  finally show ?thesis .
qed

lemma dac_in_range:
  assumes n: "1 \<le> N" "N \<le> 52" and ref: "is_double vRef" "0 < vRef"
    and step: "is_double (vRef / 2 ^ nat N)" and d: "0 \<le> D" "D < 2 ^ nat N"
  shows "\<exists>x. round_double (real_of_int D * (vRef / 2 ^ nat N)) = Num x \<and> 0 \<le> x \<and> x < vRef"
proof -
  define s where "s = vRef / 2 ^ nat N"
  define y where "y = real_of_int D * s"
  define eta :: real where "eta = 1 / 2 ^ 1075"
  define e53 where "e53 = vRef / 2 ^ 53"
  define s53 where "s53 = s / 2 ^ 53"
  have s0: "0 < s" unfolding s_def using ref(2) by simp
  have s53_0: "0 < s53" unfolding s53_def using s0 by simp
  have full: "2 ^ nat N * s = vRef" unfolding s_def by simp
  from d(2) have "D \<le> 2 ^ nat N - 1" by simp
  then have "real_of_int D \<le> real_of_int (2 ^ nat N - 1)" by (rule of_int_le_iff [THEN iffD2])
  then have "real_of_int D \<le> 2 ^ nat N - 1" by simp
  then have "real_of_int D * s \<le> (2 ^ nat N - 1) * s"
    using s0 by (intro mult_right_mono) simp_all
  also have "\<dots> = vRef - s" using full by (simp add: left_diff_distrib)
  finally have y1: "y \<le> vRef - s" unfolding y_def .
  from d(1) s0 have y0: "0 \<le> y" unfolding y_def by simp
  from y1 s0 have y2: "y \<le> vRef" by simp
  note r = round_in [OF y0 y2 ref(1)]
  from y0 y1 have "\<bar>y\<bar> / 2 ^ 53 \<le> (vRef - s) / 2 ^ 53" by (simp add: divide_right_mono)
  also have "\<dots> = e53 - s53" unfolding e53_def s53_def by (simp add: diff_divide_distrib)
  finally have "\<bar>y\<bar> / 2 ^ 53 \<le> e53 - s53" .
  with round_fin_error_rel [of y] have err: "\<bar>round_fin y - y\<bar> \<le> e53 - s53 + eta"
    unfolding eta_def by linarith
  from n(2) have "nat N \<le> 52" by simp
  then have "(2::real) ^ nat N \<le> 2 ^ 52" by (intro power_increasing) simp_all
  then have "vRef / 2 ^ 52 \<le> vRef / 2 ^ nat N"
    using ref(2) by (intro divide_left_mono) simp_all
  moreover have "vRef / 2 ^ 52 = 2 * e53" unfolding e53_def by simp
  ultimately have a: "2 * e53 \<le> s" unfolding s_def by simp
  from step s0 have "1 / 2 ^ 1074 \<le> s" unfolding s_def by (rule double_pos_ge)
  moreover have "(1::real) / 2 ^ 1074 = 2 * eta" unfolding eta_def by simp
  ultimately have b: "2 * eta \<le> s" by simp
  from err y1 a b s53_0 have "round_fin y < vRef" by linarith
  with r(1,2) show ?thesis unfolding y_def s_def by blast
qed

lemma dac_above_range:
  assumes ref: "is_double vRef" "0 < vRef" and d: "2 ^ nat N \<le> D"
  shows "jge (round_double (real_of_int D * (vRef / 2 ^ nat N))) (Num vRef)"
proof -
  from d have "real_of_int (2 ^ nat N) \<le> real_of_int D" by (rule of_int_le_iff [THEN iffD2])
  then have "2 ^ nat N \<le> real_of_int D" by simp
  then have "2 ^ nat N * (vRef / 2 ^ nat N) \<le> real_of_int D * (vRef / 2 ^ nat N)"
    using ref(2) by (intro mult_right_mono) simp_all
  then have "vRef \<le> real_of_int D * (vRef / 2 ^ nat N)" by simp
  moreover from ref(2) have "0 \<le> vRef" by simp
  ultimately show ?thesis using ref(1) by (intro round_above)
qed

lemma dac_below_range:
  assumes ref: "0 < vRef" and step: "is_double (vRef / 2 ^ nat N)" and d: "D < 0"
  shows "real_of_int D * (vRef / 2 ^ nat N) \<le> - (1 / 2 ^ 1074)"
proof -
  define s where "s = vRef / 2 ^ nat N"
  have s0: "0 < s" unfolding s_def using ref by simp
  from step s0 have m: "1 / 2 ^ 1074 \<le> s" unfolding s_def by (rule double_pos_ge)
  from d have "D \<le> - 1" by simp
  then have "real_of_int D \<le> real_of_int (- 1)" by (rule of_int_le_iff [THEN iffD2])
  then have "real_of_int D \<le> - 1" by simp
  then have "real_of_int D * s \<le> (- 1) * s" using s0 by (intro mult_right_mono) simp_all
  then have "real_of_int D * s \<le> - s" by (simp only: mult_minus_left mult_1)
  with m have "real_of_int D * s \<le> - (1 / 2 ^ 1074)" by linarith
  then show ?thesis unfolding s_def .
qed


lemma dac_eval_step: "round_double (3715469692580659 / 18014398509481984) = Num (3715469692580659 / 18014398509481984)"
proof -
  have "round_fin (3715469692580659 / 18014398509481984) = real_of_int (rne ((3715469692580659 / 18014398509481984) / 2 powi (- 55))) * 2 powi (- 55)"
    by (rule round_fin_evalI) simp_all
  also have "\<dots> = (3715469692580659 / 18014398509481984)"
    by (simp add: rne_def)
  finally show ?thesis by (rule round_double_evalI) simp
qed

lemma dac_eval_full: "round_double (3715469692580659 / 1125899906842624) = Num (3715469692580659 / 1125899906842624)"
proof -
  have "round_fin (3715469692580659 / 1125899906842624) = real_of_int (rne ((3715469692580659 / 1125899906842624) / 2 powi (- 51))) * 2 powi (- 51)"
    by (rule round_fin_evalI) simp_all
  also have "\<dots> = (3715469692580659 / 1125899906842624)"
    by (simp add: rne_def)
  finally show ?thesis by (rule round_double_evalI) simp
qed

text \<open>
  C3, as the code has it. The per-bit switch states of a digital code \<open>D\<close> are those of
  \<open>D mod 2^N\<close>: reading bits 0 to \<open>N - 1\<close> masks the code. The analog output voltage is
  the double product of the code as it is with the step \<open>reference / 2^N\<close>; nothing masks
  it. Where the step is computed without rounding (\<open>reference / 2^N\<close> is a double, as it is
  unless the division underflows) and \<open>N \<le> 52\<close>, a code in \<open>0 \<dots> 2^N - 1\<close> gives a voltage
  in \<open>[0, reference)\<close>, a code of \<open>2^N\<close> or more gives the reference or more, and a negative
  code gives a negative voltage; so the voltage of a code outside the range is never the
  voltage of \<open>D mod 2^N\<close>.
\<close>

theorem dac_bits_masked_voltage_unmasked:
  assumes "1 \<le> N" and "N \<le> 52"
    and "is_double vRef" and "0 < vRef" and "is_double (vRef / 2 ^ nat N)"
    and "\<bar>D\<bar> < 2 ^ 53"
  shows "bits N D = bits N (D mod 2 ^ nat N)
    \<and> length (bits N D) = nat N
    \<and> stepSize N (Num vRef) = Num (vRef / 2 ^ nat N)
    \<and> outputVoltage N (Num vRef) D = round_double (real_of_int D * (vRef / 2 ^ nat N))
    \<and> (0 \<le> D \<and> D < 2 ^ nat N \<longrightarrow>
          (\<exists>x. outputVoltage N (Num vRef) D = Num x \<and> 0 \<le> x \<and> x < vRef))
    \<and> (2 ^ nat N \<le> D \<longrightarrow> jge (outputVoltage N (Num vRef) D) (Num vRef))
    \<and> (D < 0 \<longrightarrow> \<not> jge (outputVoltage N (Num vRef) D) (Num 0))
    \<and> (D < 0 \<or> 2 ^ nat N \<le> D \<longrightarrow>
          outputVoltage N (Num vRef) D \<noteq> outputVoltage N (Num vRef) (D mod 2 ^ nat N))"
proof -
  from assms(2) have n: "N \<le> 1023" by simp
  have len: "length (bits N D) = nat N"
    using assms(1) by (simp add: bits_def)
  have step: "stepSize N (Num vRef) = Num (vRef / 2 ^ nat N)"
    using assms(1) n assms(5) by (rule step_exact)
  have out: "outputVoltage N (Num vRef) D = round_double (real_of_int D * (vRef / 2 ^ nat N))"
    for D
    unfolding outputVoltage_def step by simp
  have inside: "\<exists>x. outputVoltage N (Num vRef) D = Num x \<and> 0 \<le> x \<and> x < vRef"
    if "0 \<le> D" and "D < 2 ^ nat N" for D
    unfolding out using assms(1,2,3,4,5) that by (rule dac_in_range)
  have above: "jge (outputVoltage N (Num vRef) D) (Num vRef)" if "2 ^ nat N \<le> D"
    unfolding out using assms(3,4) that by (rule dac_above_range)
  have below: "\<not> jge (outputVoltage N (Num vRef) D) (Num 0)"
    and below': "outputVoltage N (Num vRef) D \<noteq> Num y \<or> y < 0" if "D < 0" for y
  proof -
    from assms(4,5) that
    have "real_of_int D * (vRef / 2 ^ nat N) \<le> - (1 / 2 ^ 1074)" by (rule dac_below_range)
    then show "\<not> jge (outputVoltage N (Num vRef) D) (Num 0)"
      and "outputVoltage N (Num vRef) D \<noteq> Num y \<or> y < 0"
      unfolding out by (rule round_double_negative)+
  qed
  have differs: "outputVoltage N (Num vRef) D \<noteq> outputVoltage N (Num vRef) (D mod 2 ^ nat N)"
    if "D < 0 \<or> 2 ^ nat N \<le> D"
  proof -
    have "0 \<le> D mod 2 ^ nat N" and "D mod 2 ^ nat N < 2 ^ nat N" by simp_all
    then obtain x where x: "outputVoltage N (Num vRef) (D mod 2 ^ nat N) = Num x"
      and x0: "0 \<le> x" and x1: "x < vRef"
      using inside [of "D mod 2 ^ nat N"] by blast
    from that show ?thesis
    proof
      assume "D < 0"
      then have "outputVoltage N (Num vRef) D \<noteq> Num x \<or> x < 0" by (rule below')
      with x0 show ?thesis unfolding x by simp
    next
      assume "2 ^ nat N \<le> D"
      then have "jge (outputVoltage N (Num vRef) D) (Num vRef)" by (rule above)
      with x1 show ?thesis unfolding x by auto
    qed
  qed
  from bits_masked [of N D] len step out [of D] inside [of D] above below differs
  show ?thesis by (intro conjI impI) blast+
qed

text \<open>Four bits, reference 3.3 V, code 16: the switches are those of code 0, the voltage is 3.3 V.\<close>

theorem dac_bits_masked_voltage_unmasked_witness:
  "bits 4 16 = [0, 0, 0, 0]
   \<and> bits 4 16 = bits 4 (16 mod 2 ^ nat 4)
   \<and> stepSize 4 (Num (3715469692580659 / 1125899906842624)) = Num (3715469692580659 / 18014398509481984)
   \<and> jge (outputVoltage 4 (Num (3715469692580659 / 1125899906842624)) 16) (Num (3715469692580659 / 1125899906842624))
   \<and> outputVoltage 4 (Num (3715469692580659 / 1125899906842624)) 16
       \<noteq> outputVoltage 4 (Num (3715469692580659 / 1125899906842624)) (16 mod 2 ^ nat 4)"
proof -
  have h: "(1::int) \<le> 4" "(4::int) \<le> 52" "(0::real) < (3715469692580659 / 1125899906842624)"
    "\<bar>16::int\<bar> < 2 ^ 53" by simp_all
  have "((3715469692580659 / 1125899906842624) / 2 ^ nat 4 :: real) = of_int 3715469692580659 * 2 powi (- 54)"
    by (simp add: power_int_minus)
  then have s: "is_double ((3715469692580659 / 1125899906842624) / 2 ^ nat 4)" by (rule is_doubleI) simp_all
  note w = dac_bits_masked_voltage_unmasked [OF h(1,2) is_double_3_3 h(3) s h(4)]
  have a: "bits 4 16 = [0, 0, 0, 0]"
    by (simp add: bits_def js_bit_def upto_rec1 upto.simps)
  note b = w [THEN conjunct1]
  from w [THEN conjunct2, THEN conjunct2, THEN conjunct1]
  have c: "stepSize 4 (Num (3715469692580659 / 1125899906842624)) = Num (3715469692580659 / 18014398509481984)" by simp
  from w [THEN conjunct2, THEN conjunct2, THEN conjunct2, THEN conjunct2, THEN conjunct2,
    THEN conjunct1]
  have d: "jge (outputVoltage 4 (Num (3715469692580659 / 1125899906842624)) 16) (Num (3715469692580659 / 1125899906842624))" by simp
  from w [THEN conjunct2, THEN conjunct2, THEN conjunct2, THEN conjunct2, THEN conjunct2,
    THEN conjunct2, THEN conjunct2]
  have e: "outputVoltage 4 (Num (3715469692580659 / 1125899906842624)) 16
       \<noteq> outputVoltage 4 (Num (3715469692580659 / 1125899906842624)) (16 mod 2 ^ nat 4)" by simp
  from a b c d e show ?thesis by (intro conjI)
qed

text \<open>The claim as stated fails for the voltage: code 16 gives the reference, code 0 gives 0.\<close>

theorem dac_voltage_not_masked:
  "outputVoltage 4 (Num (3715469692580659 / 1125899906842624)) 16 = Num (3715469692580659 / 1125899906842624)
   \<and> outputVoltage 4 (Num (3715469692580659 / 1125899906842624)) (16 mod 2 ^ 4) = Num 0
   \<and> outputVoltage 4 (Num (3715469692580659 / 1125899906842624)) 16 \<noteq> outputVoltage 4 (Num (3715469692580659 / 1125899906842624)) (16 mod 2 ^ 4)"
proof -
  have "jpow2 4 = Num 16" by (simp add: jpow2_def)
  then have step: "stepSize 4 (Num (3715469692580659 / 1125899906842624)) = Num (3715469692580659 / 18014398509481984)"
    unfolding stepSize_def using dac_eval_step by simp
  have a: "outputVoltage 4 (Num (3715469692580659 / 1125899906842624)) 16 = Num (3715469692580659 / 1125899906842624)"
    unfolding outputVoltage_def step using dac_eval_full by simp
  have zero: "round_double 0 = Num 0" using is_double_0 by (rule round_double_exact)
  have b: "outputVoltage 4 (Num (3715469692580659 / 1125899906842624)) (16 mod 2 ^ 4) = Num 0"
    unfolding outputVoltage_def step using zero by simp
  from a b show ?thesis by simp
qed


section \<open>Successive approximation\<close>

lemma jge_round:
  assumes "is_double v" and "0 \<le> s"
  shows "jge (Num v) (round_double s) \<longleftrightarrow> round_fin s \<le> v"
proof (cases "2 ^ 1024 \<le> round_fin s")
  case True
  then have "round_double s = PosInf" unfolding round_double_def by (simp only: if_True)
  moreover from is_double_bound [OF assms(1)] True have "\<not> round_fin s \<le> v" by linarith
  ultimately show ?thesis by simp
next
  case False
  from assms(2) have "0 \<le> round_fin s" by (rule round_fin_nonneg)
  with False have "\<bar>round_fin s\<bar> < 2 ^ 1024" by linarith
  then have "round_double s = Num (round_fin s)" by (rule round_double_Num)
  then show ?thesis by simp
qed

text \<open>The bit weight \<^verbatim>\<open>vRef / Math.pow(2, i + 1)\<close>.\<close>

lemma bit_weight:
  assumes "is_double vRef" and "0 \<le> vRef"
  shows "\<exists>b. jdiv (Num vRef) (jpow2 (int n + 1)) = Num b \<and> 0 \<le> b \<and> b \<le> vRef
    \<and> \<bar>b - vRef / 2 ^ Suc n\<bar> \<le> vRef / 2 ^ 53 + 1 / 2 ^ 1075"
proof (cases "int n + 1 \<le> 1023")
  case True
  then have "jpow2 (int n + 1) = Num (2 powi (int n + 1))" by (simp add: jpow2_def)
  also have "(2::real) powi (int n + 1) = 2 ^ Suc n"
    by (simp add: power_int_def nat_add_distrib)
  finally have "jdiv (Num vRef) (jpow2 (int n + 1)) = round_double (vRef / 2 ^ Suc n)"
    by simp
  moreover have lo: "0 \<le> vRef / 2 ^ Suc n" using assms(2) by simp
  moreover have hi: "vRef / 2 ^ Suc n \<le> vRef"
  proof -
    have "(1::real) \<le> 2 ^ Suc n" by (rule one_le_power) simp
    then have "vRef / 2 ^ Suc n \<le> vRef / 1"
      using assms(2) by (intro divide_left_mono) simp_all
    then show ?thesis by simp
  qed
  moreover note round_in [OF lo hi assms(1)]
  ultimately show ?thesis by auto
next
  case False
  then have "jpow2 (int n + 1) = PosInf" by (simp add: jpow2_def)
  then have a: "jdiv (Num vRef) (jpow2 (int n + 1)) = Num 0" by simp
  from False have "53 \<le> Suc n" by simp
  then have "(2::real) ^ 53 \<le> 2 ^ Suc n" by (intro power_increasing) simp_all
  then have "vRef / 2 ^ Suc n \<le> vRef / 2 ^ 53"
    using assms(2) by (intro divide_left_mono) simp_all
  moreover have "0 \<le> vRef / 2 ^ Suc n" using assms(2) by simp
  moreover have "(0::real) \<le> 1 / 2 ^ 1075" by simp
  ultimately have "\<bar>0 - vRef / 2 ^ Suc n\<bar> \<le> vRef / 2 ^ 53 + 1 / 2 ^ 1075" by linarith
  with a assms(2) show ?thesis by blast
qed

lemma sar_iter_step:
  assumes ref: "is_double vRef" and inp: "is_double v" and v0: "0 \<le> v" and v1: "v \<le> vRef"
    and c: "is_double c" and c0: "0 \<le> c" and c1: "c \<le> v"
    and err: "v - c \<le> vRef / 2 ^ n + real n * (vRef / 2 ^ 51 + 1 / 2 ^ 1074)"
  shows "\<exists>c' st. sar_iter N (Num vRef) (Num v) n (steps, Num c) = (steps @ [st], Num c')
    \<and> currentApproximation st = Num c' \<and> is_double c' \<and> c \<le> c' \<and> c' \<le> v
    \<and> v - c' \<le> vRef / 2 ^ Suc n + real (Suc n) * (vRef / 2 ^ 51 + 1 / 2 ^ 1074)"
proof -
  define eta :: real where "eta = 1 / 2 ^ 1075"
  define d where "d = vRef / 2 ^ 51 + 1 / 2 ^ 1074"
  define nd where "nd = real n * d"
  define xb where "xb = vRef / 2 ^ Suc n"
  define r53 where "r53 = vRef / 2 ^ 53"
  from v0 v1 have r0: "0 \<le> vRef" by simp
  have eta0: "0 \<le> eta" unfolding eta_def by simp
  have r53_0: "0 \<le> r53" unfolding r53_def using r0 by simp
  have d_eq: "d = 4 * r53 + 2 * eta" unfolding d_def r53_def eta_def by simp
  have d0: "0 \<le> d" unfolding d_eq using r53_0 eta0 by simp
  have nd0: "0 \<le> nd" unfolding nd_def using d0 by simp
  have snd: "real (Suc n) * d = nd + d" unfolding nd_def by (simp add: algebra_simps)
  have xb0: "0 \<le> xb" unfolding xb_def using r0 by simp
  have goal_eq: "vRef / 2 ^ Suc n + real (Suc n) * (vRef / 2 ^ 51 + 1 / 2 ^ 1074) = xb + nd + d"
    unfolding xb_def [symmetric] d_def [symmetric] snd by simp
  have half: "vRef / 2 ^ n = 2 * xb" unfolding xb_def by simp
  from err have err': "v - c \<le> 2 * xb + nd" unfolding half d_def nd_def .
  from bit_weight [OF ref r0, of n] obtain b
    where bw: "jdiv (Num vRef) (jpow2 (int n + 1)) = Num b"
      and b0: "0 \<le> b" and b1: "b \<le> vRef" and be: "\<bar>b - xb\<bar> \<le> r53 + eta"
    unfolding xb_def r53_def eta_def by blast
  define s where "s = c + b"
  define t where "t = round_fin s"
  from c0 b0 have s0: "0 \<le> s" unfolding s_def by simp
  from c1 v1 b1 have s1: "\<bar>s\<bar> \<le> 2 * vRef" unfolding s_def using s0 c0 b0 by linarith
  have "\<bar>s\<bar> / 2 ^ 53 \<le> 2 * vRef / 2 ^ 53" using s1 by (rule divide_right_mono) simp
  also have "\<dots> = 2 * r53" unfolding r53_def by simp
  finally have "\<bar>s\<bar> / 2 ^ 53 \<le> 2 * r53" .
  with round_fin_error_rel [of s] have te: "\<bar>t - s\<bar> \<le> 2 * r53 + eta"
    unfolding t_def eta_def by linarith
  have trial: "jadd (Num c) (Num b) = round_double s" unfolding s_def by simp
  have kept: "jge (Num v) (round_double s) \<longleftrightarrow> t \<le> v"
    unfolding t_def using inp s0 by (rule jge_round)
  show ?thesis
  proof (cases "t \<le> v")
    case True
    from s0 have t0: "0 \<le> t" unfolding t_def by (rule round_fin_nonneg)
    from True is_double_bound [OF inp] t0 have tb: "\<bar>round_fin s\<bar> < 2 ^ 1024"
      unfolding t_def by linarith
    then have rd: "round_double s = Num t" unfolding t_def by (rule round_double_Num)
    from tb have td: "is_double t" unfolding t_def by (rule is_double_round)
    have "c \<le> s" unfolding s_def using b0 by simp
    then have "round_fin c \<le> round_fin s" by (rule round_fin_mono)
    then have ct: "c \<le> t" unfolding t_def using c by (simp add: is_double_fixed)
    from err' be te have "v - t \<le> xb + nd + d"
      unfolding s_def d_eq using r53_0 by linarith
    then have bound: "v - t \<le> vRef / 2 ^ Suc n + real (Suc n) * (vRef / 2 ^ 51 + 1 / 2 ^ 1074)"
      unfolding goal_eq .
    have "sar_iter N (Num vRef) (Num v) n (steps, Num c) =
        (steps @ [\<lparr>bitIndex = N - 1 - int n, bitWeight = Num b, trialVoltage = Num t,
                    decision = 1, currentApproximation = Num t\<rparr>], Num t)"
      unfolding sar_iter_def Let_def fst_conv snd_conv bw trial rd using True by simp
    with td ct True bound show ?thesis by auto
  next
    case False
    with te be have "v - c \<le> xb + (3 * r53 + 2 * eta)" unfolding s_def by linarith
    then have "v - c \<le> xb + nd + d" unfolding d_eq using nd0 r53_0 by linarith
    then have bound: "v - c \<le> vRef / 2 ^ Suc n + real (Suc n) * (vRef / 2 ^ 51 + 1 / 2 ^ 1074)"
      unfolding goal_eq .
    have "sar_iter N (Num vRef) (Num v) n (steps, Num c) =
        (steps @ [\<lparr>bitIndex = N - 1 - int n, bitWeight = Num b, trialVoltage = round_double s,
                    decision = 0, currentApproximation = Num c\<rparr>], Num c)"
      unfolding sar_iter_def Let_def fst_conv snd_conv bw trial kept using False by simp
    with c c1 bound show ?thesis by auto
  qed
qed


lemma sar_invariant:
  assumes ref: "is_double vRef" and inp: "is_double v" and v0: "0 \<le> v" and v1: "v \<le> vRef"
  shows "\<exists>steps c xs. fold (sar_iter N (Num vRef) (Num v)) [0..<n] ([], Num 0) = (steps, Num c)
    \<and> length steps = n \<and> map currentApproximation steps = map Num xs \<and> sorted xs
    \<and> (\<forall>x \<in> set xs. x \<le> c)
    \<and> (steps \<noteq> [] \<longrightarrow> currentApproximation (last steps) = Num c)
    \<and> is_double c \<and> 0 \<le> c \<and> c \<le> v
    \<and> v - c \<le> vRef / 2 ^ n + real n * (vRef / 2 ^ 51 + 1 / 2 ^ 1074)"
proof (induction n)
  case 0
  have "fold (sar_iter N (Num vRef) (Num v)) [0..<0] ([], Num 0) = ([], Num 0)" by simp
  moreover have "map currentApproximation [] = map Num []" by simp
  moreover have "sorted ([] :: real list)" by simp
  moreover have "v - 0 \<le> vRef / 2 ^ 0 + real 0 * (vRef / 2 ^ 51 + 1 / 2 ^ 1074)"
    using v1 by simp
  ultimately show ?case using is_double_0 v0 by fastforce
next
  case (Suc n)
  then obtain steps c xs
    where run: "fold (sar_iter N (Num vRef) (Num v)) [0..<n] ([], Num 0) = (steps, Num c)"
      and len: "length steps = n"
      and ap: "map currentApproximation steps = map Num xs"
      and srt: "sorted xs"
      and below: "\<forall>x \<in> set xs. x \<le> c"
      and c: "is_double c" and c0: "0 \<le> c" and c1: "c \<le> v"
      and err: "v - c \<le> vRef / 2 ^ n + real n * (vRef / 2 ^ 51 + 1 / 2 ^ 1074)"
    by blast
  from sar_iter_step [OF ref inp v0 v1 c c0 c1 err, of N steps] obtain c' st
    where it: "sar_iter N (Num vRef) (Num v) n (steps, Num c) = (steps @ [st], Num c')"
      and st: "currentApproximation st = Num c'"
      and c': "is_double c'" and cc: "c \<le> c'" and c1': "c' \<le> v"
      and err': "v - c' \<le> vRef / 2 ^ Suc n + real (Suc n) * (vRef / 2 ^ 51 + 1 / 2 ^ 1074)"
    by blast
  have run': "fold (sar_iter N (Num vRef) (Num v)) [0..<Suc n] ([], Num 0) = (steps @ [st], Num c')"
    by (simp add: run it)
  have len': "length (steps @ [st]) = Suc n" using len by simp
  have ap': "map currentApproximation (steps @ [st]) = map Num (xs @ [c'])"
    using ap st by simp
  from below cc have below1: "\<forall>x \<in> set xs. x \<le> c'" by auto
  with srt have srt': "sorted (xs @ [c'])" by (simp add: sorted_append)
  from below1 have below': "\<forall>x \<in> set (xs @ [c']). x \<le> c'" by simp
  have last': "steps @ [st] \<noteq> [] \<longrightarrow> currentApproximation (last (steps @ [st])) = Num c'"
    using st by simp
  from c0 cc have c0': "0 \<le> c'" by simp
  from run' len' ap' srt' below' last' c' c0' c1' err' show ?case by blast
qed

text \<open>
  C7, as the code has it. For every resolution \<open>N \<ge> 1\<close> and doubles
  \<open>0 \<le> v \<le> reference\<close> the successive-approximation loop makes exactly \<open>N\<close> steps, the
  cumulative approximations of the steps are finite and non-decreasing, and the final
  approximation is at most the input voltage. The trial voltages are rounded sums, so the
  final approximation is within one LSB, \<open>reference / 2^N\<close>, of the input only up to the
  rounding of the \<open>N\<close> steps: the distance is at most
  \<open>reference / 2^N + N * (reference / 2^51 + 2^-1074)\<close>.
\<close>

theorem sar_monotone_within_lsb:
  assumes "1 \<le> N" and "is_double vRef" and "is_double v" and "0 \<le> v" and "v \<le> vRef"
  shows "length (sarSteps N (Num vRef) (Num v)) = nat N
    \<and> (\<exists>xs. map currentApproximation (sarSteps N (Num vRef) (Num v)) = map Num xs \<and> sorted xs)
    \<and> (\<exists>x. finalVoltage_sar (sarSteps N (Num vRef) (Num v)) = Inr (Num x)
           \<and> x \<le> v
           \<and> v - x \<le> vRef / 2 ^ nat N + real (nat N) * (vRef / 2 ^ 51 + 1 / 2 ^ 1074))"
proof -
  from sar_invariant [OF assms(2-5), of N "nat N"] obtain steps c xs
    where run: "fold (sar_iter N (Num vRef) (Num v)) [0..<nat N] ([], Num 0) = (steps, Num c)"
      and len: "length steps = nat N"
      and ap: "map currentApproximation steps = map Num xs"
      and srt: "sorted xs"
      and final: "steps \<noteq> [] \<longrightarrow> currentApproximation (last steps) = Num c"
      and c1: "c \<le> v"
      and err: "v - c \<le> vRef / 2 ^ nat N + real (nat N) * (vRef / 2 ^ 51 + 1 / 2 ^ 1074)"
    by blast
  have st: "sarSteps N (Num vRef) (Num v) = steps"
    by (simp add: sarSteps_def run)
  from assms(1) len have ne: "steps \<noteq> []" by auto
  with final have "finalVoltage_sar steps = Inr (Num c)"
    by (simp add: finalVoltage_sar_def)
  with c1 err have "\<exists>x. finalVoltage_sar steps = Inr (Num x) \<and> x \<le> v
      \<and> v - x \<le> vRef / 2 ^ nat N + real (nat N) * (vRef / 2 ^ 51 + 1 / 2 ^ 1074)"
    by blast
  moreover from ap srt have "\<exists>xs. map currentApproximation steps = map Num xs \<and> sorted xs"
    by blast
  ultimately show ?thesis unfolding st using len by (intro conjI)
qed

text \<open>Four bits, reference 3.3 V, input 1.65 V.\<close>

theorem sar_monotone_within_lsb_witness:
  "length (sarSteps 4 (Num (3715469692580659 / 1125899906842624))
      (Num (3715469692580659 / 2251799813685248))) = 4
   \<and> (\<exists>xs. map currentApproximation (sarSteps 4 (Num (3715469692580659 / 1125899906842624))
          (Num (3715469692580659 / 2251799813685248))) = map Num xs \<and> sorted xs)
   \<and> (\<exists>x. finalVoltage_sar (sarSteps 4 (Num (3715469692580659 / 1125899906842624))
          (Num (3715469692580659 / 2251799813685248))) = Inr (Num x)
        \<and> x \<le> 3715469692580659 / 2251799813685248)"
proof -
  have h: "(1::int) \<le> 4"
    "(0::real) \<le> 3715469692580659 / 2251799813685248"
    "(3715469692580659 / 2251799813685248 :: real) \<le> 3715469692580659 / 1125899906842624"
    by simp_all
  note w = sar_monotone_within_lsb [OF h(1) is_double_3_3 is_double_1_65 h(2,3)]
  from w [THEN conjunct1]
  have a: "length (sarSteps 4 (Num (3715469692580659 / 1125899906842624))
      (Num (3715469692580659 / 2251799813685248))) = 4" by simp
  note b = w [THEN conjunct2, THEN conjunct1]
  from w [THEN conjunct2, THEN conjunct2]
  have c: "\<exists>x. finalVoltage_sar (sarSteps 4 (Num (3715469692580659 / 1125899906842624))
          (Num (3715469692580659 / 2251799813685248))) = Inr (Num x)
        \<and> x \<le> 3715469692580659 / 2251799813685248" by blast
  from a b c show ?thesis by (intro conjI)
qed


lemma sar_eval_1: "round_double (3715469692580659 / 2251799813685248) = Num (3715469692580659 / 2251799813685248)"
proof -
  have "round_fin (3715469692580659 / 2251799813685248) = real_of_int (rne ((3715469692580659 / 2251799813685248) / 2 powi (- 52))) * 2 powi (- 52)"
    by (rule round_fin_evalI) simp_all
  also have "\<dots> = (3715469692580659 / 2251799813685248)"
    by (simp add: rne_def)
  finally show ?thesis by (rule round_double_evalI) simp
qed

lemma sar_eval_2: "round_double (3715469692580659 / 4503599627370496) = Num (3715469692580659 / 4503599627370496)"
proof -
  have "round_fin (3715469692580659 / 4503599627370496) = real_of_int (rne ((3715469692580659 / 4503599627370496) / 2 powi (- 53))) * 2 powi (- 53)"
    by (rule round_fin_evalI) simp_all
  also have "\<dots> = (3715469692580659 / 4503599627370496)"
    by (simp add: rne_def)
  finally show ?thesis by (rule round_double_evalI) simp
qed

lemma sar_eval_3: "round_double (11146409077741977 / 4503599627370496) = Num (1393301134717747 / 562949953421312)"
proof -
  have "round_fin (11146409077741977 / 4503599627370496) = real_of_int (rne ((11146409077741977 / 4503599627370496) / 2 powi (- 51))) * 2 powi (- 51)"
    by (rule round_fin_evalI) simp_all
  also have "\<dots> = (1393301134717747 / 562949953421312)"
    by (simp add: rne_def)
  finally show ?thesis by (rule round_double_evalI) simp
qed

lemma sar_eval_4: "round_double (3715469692580659 / 9007199254740992) = Num (3715469692580659 / 9007199254740992)"
proof -
  have "round_fin (3715469692580659 / 9007199254740992) = real_of_int (rne ((3715469692580659 / 9007199254740992) / 2 powi (- 54))) * 2 powi (- 54)"
    by (rule round_fin_evalI) simp_all
  also have "\<dots> = (3715469692580659 / 9007199254740992)"
    by (simp add: rne_def)
  finally show ?thesis by (rule round_double_evalI) simp
qed

lemma sar_eval_5: "round_double (26008287848064611 / 9007199254740992) = Num (6502071962016153 / 2251799813685248)"
proof -
  have "round_fin (26008287848064611 / 9007199254740992) = real_of_int (rne ((26008287848064611 / 9007199254740992) / 2 powi (- 51))) * 2 powi (- 51)"
    by (rule round_fin_evalI) simp_all
  also have "\<dots> = (6502071962016153 / 2251799813685248)"
    by (simp add: rne_def)
  finally show ?thesis by (rule round_double_evalI) simp
qed

lemma sar_eval_6: "round_double (3715469692580659 / 18014398509481984) = Num (3715469692580659 / 18014398509481984)"
proof -
  have "round_fin (3715469692580659 / 18014398509481984) = real_of_int (rne ((3715469692580659 / 18014398509481984) / 2 powi (- 55))) * 2 powi (- 55)"
    by (rule round_fin_evalI) simp_all
  also have "\<dots> = (3715469692580659 / 18014398509481984)"
    by (simp add: rne_def)
  finally show ?thesis by (rule round_double_evalI) simp
qed

lemma sar_eval_7: "round_double (55732045388709883 / 18014398509481984) = Num (6966505673588735 / 2251799813685248)"
proof -
  have "round_fin (55732045388709883 / 18014398509481984) = real_of_int (rne ((55732045388709883 / 18014398509481984) / 2 powi (- 51))) * 2 powi (- 51)"
    by (rule round_fin_evalI) simp_all
  also have "\<dots> = (6966505673588735 / 2251799813685248)"
    by (simp add: rne_def)
  finally show ?thesis by (rule round_double_evalI) simp
qed

lemma sar_cex_step_0:
  "sar_iter 4 (Num (3715469692580659 / 1125899906842624)) (Num (3715469692580659 / 1125899906842624)) 0
     ([], Num 0)
   = ([\<lparr>bitIndex = 3, bitWeight = Num (3715469692580659 / 2251799813685248), trialVoltage = Num (3715469692580659 / 2251799813685248), decision = 1, currentApproximation = Num (3715469692580659 / 2251799813685248)\<rparr>], Num (3715469692580659 / 2251799813685248))"
proof -
  have p: "jpow2 (int 0 + 1) = Num 2" by (simp add: jpow2_def)
  have b: "jdiv (Num (3715469692580659 / 1125899906842624)) (Num 2) = Num (3715469692580659 / 2251799813685248)" using sar_eval_1 by simp
  have t: "jadd (Num 0) (Num (3715469692580659 / 2251799813685248)) = Num (3715469692580659 / 2251799813685248)" using sar_eval_1 by simp
  show ?thesis unfolding sar_iter_def Let_def fst_conv snd_conv p b t by simp
qed

lemma sar_cex_step_1:
  "sar_iter 4 (Num (3715469692580659 / 1125899906842624)) (Num (3715469692580659 / 1125899906842624)) 1
     ([\<lparr>bitIndex = 3, bitWeight = Num (3715469692580659 / 2251799813685248), trialVoltage = Num (3715469692580659 / 2251799813685248), decision = 1, currentApproximation = Num (3715469692580659 / 2251799813685248)\<rparr>], Num (3715469692580659 / 2251799813685248))
   = ([\<lparr>bitIndex = 3, bitWeight = Num (3715469692580659 / 2251799813685248), trialVoltage = Num (3715469692580659 / 2251799813685248), decision = 1, currentApproximation = Num (3715469692580659 / 2251799813685248)\<rparr>, \<lparr>bitIndex = 2, bitWeight = Num (3715469692580659 / 4503599627370496), trialVoltage = Num (1393301134717747 / 562949953421312), decision = 1, currentApproximation = Num (1393301134717747 / 562949953421312)\<rparr>], Num (1393301134717747 / 562949953421312))"
proof -
  have p: "jpow2 (int 1 + 1) = Num 4" by (simp add: jpow2_def)
  have b: "jdiv (Num (3715469692580659 / 1125899906842624)) (Num 4) = Num (3715469692580659 / 4503599627370496)" using sar_eval_2 by simp
  have t: "jadd (Num (3715469692580659 / 2251799813685248)) (Num (3715469692580659 / 4503599627370496)) = Num (1393301134717747 / 562949953421312)" using sar_eval_3 by simp
  show ?thesis unfolding sar_iter_def Let_def fst_conv snd_conv p b t by simp
qed

lemma sar_cex_step_2:
  "sar_iter 4 (Num (3715469692580659 / 1125899906842624)) (Num (3715469692580659 / 1125899906842624)) 2
     ([\<lparr>bitIndex = 3, bitWeight = Num (3715469692580659 / 2251799813685248), trialVoltage = Num (3715469692580659 / 2251799813685248), decision = 1, currentApproximation = Num (3715469692580659 / 2251799813685248)\<rparr>, \<lparr>bitIndex = 2, bitWeight = Num (3715469692580659 / 4503599627370496), trialVoltage = Num (1393301134717747 / 562949953421312), decision = 1, currentApproximation = Num (1393301134717747 / 562949953421312)\<rparr>], Num (1393301134717747 / 562949953421312))
   = ([\<lparr>bitIndex = 3, bitWeight = Num (3715469692580659 / 2251799813685248), trialVoltage = Num (3715469692580659 / 2251799813685248), decision = 1, currentApproximation = Num (3715469692580659 / 2251799813685248)\<rparr>, \<lparr>bitIndex = 2, bitWeight = Num (3715469692580659 / 4503599627370496), trialVoltage = Num (1393301134717747 / 562949953421312), decision = 1, currentApproximation = Num (1393301134717747 / 562949953421312)\<rparr>, \<lparr>bitIndex = 1, bitWeight = Num (3715469692580659 / 9007199254740992), trialVoltage = Num (6502071962016153 / 2251799813685248), decision = 1, currentApproximation = Num (6502071962016153 / 2251799813685248)\<rparr>], Num (6502071962016153 / 2251799813685248))"
proof -
  have p: "jpow2 (int 2 + 1) = Num 8" by (simp add: jpow2_def)
  have b: "jdiv (Num (3715469692580659 / 1125899906842624)) (Num 8) = Num (3715469692580659 / 9007199254740992)" using sar_eval_4 by simp
  have t: "jadd (Num (1393301134717747 / 562949953421312)) (Num (3715469692580659 / 9007199254740992)) = Num (6502071962016153 / 2251799813685248)" using sar_eval_5 by simp
  show ?thesis unfolding sar_iter_def Let_def fst_conv snd_conv p b t by simp
qed

lemma sar_cex_step_3:
  "sar_iter 4 (Num (3715469692580659 / 1125899906842624)) (Num (3715469692580659 / 1125899906842624)) 3
     ([\<lparr>bitIndex = 3, bitWeight = Num (3715469692580659 / 2251799813685248), trialVoltage = Num (3715469692580659 / 2251799813685248), decision = 1, currentApproximation = Num (3715469692580659 / 2251799813685248)\<rparr>, \<lparr>bitIndex = 2, bitWeight = Num (3715469692580659 / 4503599627370496), trialVoltage = Num (1393301134717747 / 562949953421312), decision = 1, currentApproximation = Num (1393301134717747 / 562949953421312)\<rparr>, \<lparr>bitIndex = 1, bitWeight = Num (3715469692580659 / 9007199254740992), trialVoltage = Num (6502071962016153 / 2251799813685248), decision = 1, currentApproximation = Num (6502071962016153 / 2251799813685248)\<rparr>], Num (6502071962016153 / 2251799813685248))
   = ([\<lparr>bitIndex = 3, bitWeight = Num (3715469692580659 / 2251799813685248), trialVoltage = Num (3715469692580659 / 2251799813685248), decision = 1, currentApproximation = Num (3715469692580659 / 2251799813685248)\<rparr>, \<lparr>bitIndex = 2, bitWeight = Num (3715469692580659 / 4503599627370496), trialVoltage = Num (1393301134717747 / 562949953421312), decision = 1, currentApproximation = Num (1393301134717747 / 562949953421312)\<rparr>, \<lparr>bitIndex = 1, bitWeight = Num (3715469692580659 / 9007199254740992), trialVoltage = Num (6502071962016153 / 2251799813685248), decision = 1, currentApproximation = Num (6502071962016153 / 2251799813685248)\<rparr>, \<lparr>bitIndex = 0, bitWeight = Num (3715469692580659 / 18014398509481984), trialVoltage = Num (6966505673588735 / 2251799813685248), decision = 1, currentApproximation = Num (6966505673588735 / 2251799813685248)\<rparr>], Num (6966505673588735 / 2251799813685248))"
proof -
  have p: "jpow2 (int 3 + 1) = Num 16" by (simp add: jpow2_def)
  have b: "jdiv (Num (3715469692580659 / 1125899906842624)) (Num 16) = Num (3715469692580659 / 18014398509481984)" using sar_eval_6 by simp
  have t: "jadd (Num (6502071962016153 / 2251799813685248)) (Num (3715469692580659 / 18014398509481984)) = Num (6966505673588735 / 2251799813685248)" using sar_eval_7 by simp
  show ?thesis unfolding sar_iter_def Let_def fst_conv snd_conv p b t by simp
qed

lemma fold_upt_4: "fold f [0..<4] s = f 3 (f 2 (f 1 (f 0 s)))"
  by (simp add: upt_rec eval_nat_numeral)

lemma sar_cex_steps:
  "sarSteps 4 (Num (3715469692580659 / 1125899906842624)) (Num (3715469692580659 / 1125899906842624)) = [\<lparr>bitIndex = 3, bitWeight = Num (3715469692580659 / 2251799813685248), trialVoltage = Num (3715469692580659 / 2251799813685248), decision = 1, currentApproximation = Num (3715469692580659 / 2251799813685248)\<rparr>, \<lparr>bitIndex = 2, bitWeight = Num (3715469692580659 / 4503599627370496), trialVoltage = Num (1393301134717747 / 562949953421312), decision = 1, currentApproximation = Num (1393301134717747 / 562949953421312)\<rparr>, \<lparr>bitIndex = 1, bitWeight = Num (3715469692580659 / 9007199254740992), trialVoltage = Num (6502071962016153 / 2251799813685248), decision = 1, currentApproximation = Num (6502071962016153 / 2251799813685248)\<rparr>, \<lparr>bitIndex = 0, bitWeight = Num (3715469692580659 / 18014398509481984), trialVoltage = Num (6966505673588735 / 2251799813685248), decision = 1, currentApproximation = Num (6966505673588735 / 2251799813685248)\<rparr>]"
  unfolding sarSteps_def by (simp only: nat_numeral fold_upt_4 sar_cex_step_0 sar_cex_step_1 sar_cex_step_2 sar_cex_step_3 fst_conv)

text \<open>
  The claim as stated fails: with four bits and reference and input both the double nearest
  to 3.3 V, the last two trial sums are rounded down, the final approximation is
  6966505673588735 / 2^51, and its distance to the input exceeds one LSB.
\<close>

theorem sar_final_beyond_lsb:
  "map currentApproximation (sarSteps 4 (Num (3715469692580659 / 1125899906842624)) (Num (3715469692580659 / 1125899906842624)))
     = [Num (3715469692580659 / 2251799813685248), Num (1393301134717747 / 562949953421312), Num (6502071962016153 / 2251799813685248), Num (6966505673588735 / 2251799813685248)]
   \<and> finalVoltage_sar (sarSteps 4 (Num (3715469692580659 / 1125899906842624)) (Num (3715469692580659 / 1125899906842624))) = Inr (Num (6966505673588735 / 2251799813685248))
   \<and> lsbVoltage 4 (Num (3715469692580659 / 1125899906842624)) = Num (3715469692580659 / 18014398509481984)
   \<and> ((3715469692580659 / 18014398509481984) :: real) = (3715469692580659 / 1125899906842624) / 2 ^ 4
   \<and> ((3715469692580659 / 18014398509481984) :: real) < (3715469692580659 / 1125899906842624) - (6966505673588735 / 2251799813685248)"
proof -
  have a: "map currentApproximation (sarSteps 4 (Num (3715469692580659 / 1125899906842624)) (Num (3715469692580659 / 1125899906842624)))
     = [Num (3715469692580659 / 2251799813685248), Num (1393301134717747 / 562949953421312), Num (6502071962016153 / 2251799813685248), Num (6966505673588735 / 2251799813685248)]"
    unfolding sar_cex_steps by simp
  have b: "finalVoltage_sar (sarSteps 4 (Num (3715469692580659 / 1125899906842624)) (Num (3715469692580659 / 1125899906842624))) = Inr (Num (6966505673588735 / 2251799813685248))"
    unfolding sar_cex_steps finalVoltage_sar_def by simp
  have "jpow2 4 = Num 16" by (simp add: jpow2_def)
  then have c: "lsbVoltage 4 (Num (3715469692580659 / 1125899906842624)) = Num (3715469692580659 / 18014398509481984)"
    unfolding lsbVoltage_def using sar_eval_6 by simp
  have d: "((3715469692580659 / 18014398509481984) :: real) = (3715469692580659 / 1125899906842624) / 2 ^ 4" by simp
  have e: "((3715469692580659 / 18014398509481984) :: real) < (3715469692580659 / 1125899906842624) - (6966505673588735 / 2251799813685248)" by simp
  from a b c d e show ?thesis by (intro conjI)
qed


section \<open>Dual slope\<close>

lemma jdiv_in:
  assumes "0 \<le> a" and "a \<le> b * B" and "0 < b" and "is_double B"
  shows "jdiv (Num a) (Num b) = Num (round_fin (a / b))"
    and "0 \<le> round_fin (a / b)" and "round_fin (a / b) \<le> B"
    and "is_double (round_fin (a / b))"
    and "\<bar>round_fin (a / b) - a / b\<bar> \<le> B / 2 ^ 53 + 1 / 2 ^ 1075"
proof -
  from assms(1,3) have lo: "0 \<le> a / b" by simp
  from assms(2,3) have hi: "a / b \<le> B" by (simp add: pos_divide_le_eq mult.commute)
  from assms(3) have "jdiv (Num a) (Num b) = round_double (a / b)" by simp
  also from lo hi assms(4) have "\<dots> = Num (round_fin (a / b))" by (rule round_in)
  finally show "jdiv (Num a) (Num b) = Num (round_fin (a / b))" .
  from lo hi assms(4) show "0 \<le> round_fin (a / b)" by (rule round_in)
  from lo hi assms(4) show "round_fin (a / b) \<le> B" by (rule round_in)
  from lo hi assms(4) show "is_double (round_fin (a / b))" by (rule round_in)
  from lo hi assms(4) show "\<bar>round_fin (a / b) - a / b\<bar> \<le> B / 2 ^ 53 + 1 / 2 ^ 1075"
    by (rule round_in)
qed

lemma jmul_in:
  assumes "0 \<le> a" and "a \<le> A" and "0 \<le> b" and "is_double (A * b)"
  shows "jmul (Num a) (Num b) = Num (round_fin (a * b))"
    and "0 \<le> round_fin (a * b)" and "round_fin (a * b) \<le> A * b"
    and "is_double (round_fin (a * b))"
    and "\<bar>round_fin (a * b) - a * b\<bar> \<le> A * b / 2 ^ 53 + 1 / 2 ^ 1075"
proof -
  from assms(1,3) have lo: "0 \<le> a * b" by simp
  from assms(2,3) have hi: "a * b \<le> A * b" by (rule mult_right_mono)
  have "jmul (Num a) (Num b) = round_double (a * b)" by simp
  also from lo hi assms(4) have "\<dots> = Num (round_fin (a * b))" by (rule round_in)
  finally show "jmul (Num a) (Num b) = Num (round_fin (a * b))" .
  from lo hi assms(4) show "0 \<le> round_fin (a * b)" by (rule round_in)
  from lo hi assms(4) show "round_fin (a * b) \<le> A * b" by (rule round_in)
  from lo hi assms(4) show "is_double (round_fin (a * b))" by (rule round_in)
  from lo hi assms(4) show "\<bar>round_fin (a * b) - a * b\<bar> \<le> A * b / 2 ^ 53 + 1 / 2 ^ 1075"
    by (rule round_in)
qed

lemma tiny_le: "(1::real) / 2 ^ 1075 \<le> 1 / 2 ^ 55"
proof -
  have "(2::real) ^ 55 \<le> 2 ^ 1075" by (rule power_increasing) simp_all
  then show ?thesis by (simp add: divide_simps del: power_numeral)
qed

text \<open>The ratio \<^verbatim>\<open>t2 / t1\<close> as the code computes it, for an input in \<open>[0, reference]\<close>.\<close>

lemma dual_slope_ratio:
  assumes "is_double vRef" and "0 < vRef" and "0 \<le> v" and "v \<le> vRef"
  shows "\<exists>r. jdiv (t2 (Num vRef) (Num v)) t1 = Num r \<and> 0 \<le> r \<and> r \<le> 1
    \<and> \<bar>r - v / vRef\<bar> \<le> 3 / 2 ^ 53 + 3 / 2 ^ 1075"
proof -
  define eta :: real where "eta = 1 / 2 ^ 1075"
  define q where "q = round_fin (v / vRef)"
  define p where "p = round_fin (q * 100)"
  define r where "r = round_fin (p / 100)"
  have eta0: "0 \<le> eta" unfolding eta_def by simp
  from assms(4) have v1: "v \<le> vRef * 1" by simp
  have one: "is_double 1" by (rule is_double_1)
  have hundred: "is_double (1 * 100)" using is_double_100 by simp
  have q1: "jdiv (Num v) (Num vRef) = Num q"
    unfolding q_def using assms(3) v1 assms(2) one by (rule jdiv_in)
  have q2: "0 \<le> q" unfolding q_def using assms(3) v1 assms(2) one by (rule jdiv_in)
  have q3: "q \<le> 1" unfolding q_def using assms(3) v1 assms(2) one by (rule jdiv_in)
  have q4: "\<bar>q - v / vRef\<bar> \<le> 1 / 2 ^ 53 + eta"
    unfolding q_def eta_def using assms(3) v1 assms(2) one by (rule jdiv_in)
  have c100: "(0::real) \<le> 100" by simp
  have p1: "jmul (Num q) (Num 100) = Num p"
    unfolding p_def using q2 q3 c100 hundred by (rule jmul_in)
  have p2: "0 \<le> p" unfolding p_def using q2 q3 c100 hundred by (rule jmul_in)
  have p3: "p \<le> 1 * 100" unfolding p_def using q2 q3 c100 hundred by (rule jmul_in)
  have p4: "\<bar>p - q * 100\<bar> \<le> 1 * 100 / 2 ^ 53 + eta"
    unfolding p_def eta_def using q2 q3 c100 hundred by (rule jmul_in)
  from p3 have p3': "p \<le> 100 * 1" by simp
  have d100: "(0::real) < 100" by simp
  have r1: "jdiv (Num p) (Num 100) = Num r"
    unfolding r_def using p2 p3' d100 one by (rule jdiv_in)
  have r2: "0 \<le> r" unfolding r_def using p2 p3' d100 one by (rule jdiv_in)
  have r3: "r \<le> 1" unfolding r_def using p2 p3' d100 one by (rule jdiv_in)
  have r4: "\<bar>r - p / 100\<bar> \<le> 1 / 2 ^ 53 + eta"
    unfolding r_def eta_def using p2 p3' d100 one by (rule jdiv_in)
  have eq: "jdiv (t2 (Num vRef) (Num v)) t1 = Num r"
    unfolding t2_def t1_def q1 p1 r1 ..
  have "p / 100 - q = (p - q * 100) / 100" by (simp add: diff_divide_distrib)
  then have "\<bar>p / 100 - q\<bar> = \<bar>p - q * 100\<bar> / 100" by (simp only: abs_divide)
  also from p4 have "\<dots> \<le> (1 * 100 / 2 ^ 53 + eta) / 100" by (rule divide_right_mono) simp
  also have "\<dots> = 1 / 2 ^ 53 + eta / 100" by (simp add: add_divide_distrib)
  finally have "\<bar>p / 100 - q\<bar> \<le> 1 / 2 ^ 53 + eta / 100" .
  with eta0 have p5: "\<bar>p / 100 - q\<bar> \<le> 1 / 2 ^ 53 + eta" by linarith
  from q4 p5 r4 have "\<bar>r - v / vRef\<bar> \<le> 3 / 2 ^ 53 + 3 * eta" by linarith
  then have "\<bar>r - v / vRef\<bar> \<le> 3 / 2 ^ 53 + 3 / 2 ^ 1075" unfolding eta_def by simp
  with eq r2 r3 show ?thesis by blast
qed

lemma max_count:
  assumes "1 \<le> N" and "N \<le> 53"
  shows "dualSlopeMaxCount N = Num (2 ^ nat N - 1)"
    and "is_double (2 ^ nat N - 1)"
    and "(1::real) \<le> 2 ^ nat N - 1"
proof -
  from assms have n: "nat N \<le> 53" and n1: "1 \<le> nat N" by simp_all
  from n have "(2::int) ^ nat N \<le> 2 ^ 53" by (intro power_increasing) simp_all
  moreover have "(1::int) \<le> 2 ^ nat N" by simp
  ultimately have "\<bar>(2::int) ^ nat N - 1\<bar> < 2 ^ 53" by linarith
  then have "is_double (real_of_int (2 ^ nat N - 1))" by (rule is_double_of_int)
  then show d: "is_double (2 ^ nat N - 1)" by simp
  from assms have "jpow2 N = Num (2 powi N)" by (simp add: jpow2_def)
  also from assms have "(2::real) powi N = 2 ^ nat N" by (simp add: power_int_def)
  finally have "dualSlopeMaxCount N = round_double (2 ^ nat N - 1)"
    by (simp add: dualSlopeMaxCount_def jsub_def)
  also from d have "\<dots> = Num (2 ^ nat N - 1)" by (rule round_double_exact)
  finally show "dualSlopeMaxCount N = Num (2 ^ nat N - 1)" .
  from n1 have "(2::real) ^ 1 \<le> 2 ^ nat N" by (intro power_increasing) simp_all
  then show "(1::real) \<le> 2 ^ nat N - 1" by simp
qed

lemma js_round_int: "\<lfloor>real_of_int k + 1/2\<rfloor> = k"
  by (rule floor_unique) simp_all

lemma js_round_near: "\<bar>real_of_int \<lfloor>y + 1/2\<rfloor> - y\<bar> \<le> 1/2"
  by linarith

lemma js_round_range:
  assumes "0 \<le> y" and "y \<le> real_of_int m"
  shows "0 \<le> \<lfloor>y + 1/2\<rfloor>" and "\<lfloor>y + 1/2\<rfloor> \<le> m"
proof -
  from assms(1) show "0 \<le> \<lfloor>y + 1/2\<rfloor>" by simp
  from assms(2) have "y + 1/2 < real_of_int (m + 1)" by simp
  then have "\<lfloor>y + 1/2\<rfloor> < m + 1" by (simp only: floor_less_iff)
  then show "\<lfloor>y + 1/2\<rfloor> \<le> m" by simp
qed

lemma dual_slope_code:
  assumes "1 \<le> N" and "N \<le> 53"
    and "is_double vRef" and "0 < vRef" and "0 \<le> v" and "v \<le> vRef"
  shows "\<exists>c. dualSlopeCount N (Num vRef) (Num v) = Num (of_int c)
    \<and> 0 \<le> c \<and> c \<le> 2 ^ nat N - 1
    \<and> \<bar>of_int c - v / vRef * (2 ^ nat N - 1)\<bar> \<le> 1/2 + (2 ^ nat N - 1) / 2 ^ 50"
proof -
  define eta :: real where "eta = 1 / 2 ^ 1075"
  define M :: real where "M = 2 ^ nat N - 1"
  have eta0: "0 \<le> eta" unfolding eta_def by simp
  have eta1: "eta \<le> 1 / 2 ^ 55" unfolding eta_def by (rule tiny_le)
  from assms(1,2) have mc: "dualSlopeMaxCount N = Num M" unfolding M_def by (rule max_count)
  from assms(1,2) have md: "is_double (1 * M)" unfolding M_def
    using max_count(2) [of N] by simp
  from assms(1,2) have m1: "1 \<le> M" unfolding M_def by (rule max_count)
  then have m0: "0 \<le> M" by simp
  from dual_slope_ratio [OF assms(3-6)] obtain r
    where r: "jdiv (t2 (Num vRef) (Num v)) t1 = Num r" "0 \<le> r" "r \<le> 1"
      and re: "\<bar>r - v / vRef\<bar> \<le> 3 / 2 ^ 53 + 3 * eta" unfolding eta_def by auto
  define y where "y = round_fin (r * M)"
  define c where "c = \<lfloor>y + 1/2\<rfloor>"
  have y1: "jmul (Num r) (Num M) = Num y" unfolding y_def using r(2,3) m0 md by (rule jmul_in)
  have y2: "0 \<le> y" unfolding y_def using r(2,3) m0 md by (rule jmul_in)
  have y3: "y \<le> 1 * M" unfolding y_def using r(2,3) m0 md by (rule jmul_in)
  have y4: "\<bar>y - r * M\<bar> \<le> 1 * M / 2 ^ 53 + eta"
    unfolding y_def eta_def using r(2,3) m0 md by (rule jmul_in)
  have code: "dualSlopeCount N (Num vRef) (Num v) = Num (of_int c)"
    unfolding dualSlopeCount_def r mc y1 c_def by simp
  have Mi: "M = real_of_int (2 ^ nat N - 1)" unfolding M_def by simp
  from y3 have "y \<le> real_of_int (2 ^ nat N - 1)" unfolding Mi by simp
  with y2 have c0: "0 \<le> c" and c1: "c \<le> 2 ^ nat N - 1"
    unfolding c_def by (rule js_round_range)+
  have cy: "\<bar>of_int c - y\<bar> \<le> 1/2" unfolding c_def by (rule js_round_near)
  have "\<bar>r - v / vRef\<bar> * M \<le> (3 / 2 ^ 53 + 3 * eta) * M"
    using re m0 by (rule mult_right_mono)
  moreover have "\<bar>r - v / vRef\<bar> * M = \<bar>r * M - v / vRef * M\<bar>"
  proof -
    have "\<bar>r * M - v / vRef * M\<bar> = \<bar>(r - v / vRef) * M\<bar>"
      by (simp only: left_diff_distrib)
    also have "\<dots> = \<bar>r - v / vRef\<bar> * \<bar>M\<bar>" by (rule abs_mult)
    also from m0 have "\<bar>M\<bar> = M" by simp
    finally show ?thesis by simp
  qed
  ultimately have rm: "\<bar>r * M - v / vRef * M\<bar> \<le> (3 / 2 ^ 53 + 3 * eta) * M" by simp
  have e1: "3 * eta * M \<le> 3 / 2 ^ 55 * M"
    using eta1 m0 by (intro mult_right_mono) simp_all
  have e2: "eta \<le> 1 / 2 ^ 55 * M"
  proof -
    have "1 / 2 ^ 55 * 1 \<le> 1 / 2 ^ 55 * M" using m1 by (intro mult_left_mono) simp_all
    with eta1 show ?thesis by simp
  qed
  have "(3 / 2 ^ 53 + 3 * eta) * M = 3 / 2 ^ 53 * M + 3 * eta * M" by (simp add: algebra_simps)
  with rm e1 have rm': "\<bar>r * M - v / vRef * M\<bar> \<le> 3 / 2 ^ 53 * M + 3 / 2 ^ 55 * M" by linarith
  from y4 e2 have y5: "\<bar>y - r * M\<bar> \<le> 1 / 2 ^ 53 * M + 1 / 2 ^ 55 * M" by simp
  have "1 / 2 ^ 53 * M + 1 / 2 ^ 55 * M + (3 / 2 ^ 53 * M + 3 / 2 ^ 55 * M) \<le> M / 2 ^ 50"
    using m0 by simp
  moreover define E1 where "E1 = 1 / 2 ^ 53 * M + 1 / 2 ^ 55 * M"
  moreover define E2 where "E2 = 3 / 2 ^ 53 * M + 3 / 2 ^ 55 * M"
  moreover define E where "E = M / 2 ^ 50"
  moreover define a where "a = r * M"
  moreover define b where "b = v / vRef * M"
  ultimately have "E1 + E2 \<le> E" by simp
  moreover from y5 have "\<bar>y - a\<bar> \<le> E1" unfolding E1_def a_def .
  moreover from rm' have "\<bar>a - b\<bar> \<le> E2" unfolding E2_def a_def b_def .
  ultimately have "\<bar>of_int c - b\<bar> \<le> 1/2 + E" using cy by linarith
  then have "\<bar>of_int c - v / vRef * M\<bar> \<le> 1/2 + M / 2 ^ 50" unfolding b_def E_def .
  with code c0 c1 show ?thesis unfolding M_def by blast
qed

lemma dual_slope_full_scale:
  assumes "1 \<le> N" and "N \<le> 53" and "is_double vRef" and "0 < vRef"
  shows "dualSlopeCount N (Num vRef) (Num vRef) = Num (2 ^ nat N - 1)"
proof -
  have one: "round_double 1 = Num 1" using is_double_1 by (rule round_double_exact)
  have hundred: "round_double 100 = Num 100" using is_double_100 by (rule round_double_exact)
  from assms(1,2) have mc: "dualSlopeMaxCount N = Num (2 ^ nat N - 1)" by (rule max_count)
  from assms(1,2) have "is_double (2 ^ nat N - 1)" by (rule max_count)
  then have m: "round_double (2 ^ nat N - 1) = Num (2 ^ nat N - 1)" by (rule round_double_exact)
  from assms(4) have a: "jdiv (Num vRef) (Num vRef) = Num 1" by (simp add: one)
  have b: "jmul (Num 1) (Num 100) = Num 100" by (simp add: hundred)
  have c: "jdiv (Num 100) (Num 100) = Num 1" by (simp add: one)
  have d: "jmul (Num 1) (Num (2 ^ nat N - 1)) = Num (2 ^ nat N - 1)" by (simp add: m)
  have "jround (Num (real_of_int (2 ^ nat N - 1))) = Num (real_of_int (2 ^ nat N - 1))"
    unfolding jround.simps js_round_int ..
  then have e: "jround (Num (2 ^ nat N - 1)) = Num (2 ^ nat N - 1)" by simp
  show ?thesis unfolding dualSlopeCount_def t2_def t1_def a b c mc d e ..
qed

lemma dual_slope_zero:
  assumes "1 \<le> N" and "N \<le> 53" and "vRef \<noteq> 0"
  shows "dualSlopeCount N (Num vRef) (Num 0) = Num 0"
proof -
  have zero: "round_double 0 = Num 0" using is_double_0 by (rule round_double_exact)
  from assms(1,2) have mc: "dualSlopeMaxCount N = Num (2 ^ nat N - 1)" by (rule max_count)
  from assms(3) have a: "jdiv (Num 0) (Num vRef) = Num 0" by (simp add: zero)
  have b: "jmul (Num 0) (Num 100) = Num 0" by (simp add: zero)
  have c: "jdiv (Num 0) (Num 100) = Num 0" by (simp add: zero)
  have d: "jmul (Num 0) (Num (2 ^ nat N - 1)) = Num 0" by (simp add: zero)
  have e: "jround (Num 0) = Num 0" by simp
  show ?thesis unfolding dualSlopeCount_def t2_def t1_def a b c mc d e ..
qed


lemma ds_cex_q: "round_double (1 / 6) = Num (6004799503160661 / 36028797018963968)"
proof -
  have "round_fin (1 / 6) = real_of_int (rne ((1 / 6) / 2 powi (- 55))) * 2 powi (- 55)"
    by (rule round_fin_evalI) simp_all
  also have "\<dots> = (6004799503160661 / 36028797018963968)"
    by (simp add: rne_def)
  finally show ?thesis by (rule round_double_evalI) simp
qed

lemma ds_cex_p: "round_double (150119987579016525 / 9007199254740992) = Num (2345624805922133 / 140737488355328)"
proof -
  have "round_fin (150119987579016525 / 9007199254740992) = real_of_int (rne ((150119987579016525 / 9007199254740992) / 2 powi (- 48))) * 2 powi (- 48)"
    by (rule round_fin_evalI) simp_all
  also have "\<dots> = (2345624805922133 / 140737488355328)"
    by (simp add: rne_def)
  finally show ?thesis by (rule round_double_evalI) simp
qed

lemma ds_cex_r: "round_double (2345624805922133 / 14073748835532800) = Num (1501199875790165 / 9007199254740992)"
proof -
  have "round_fin (2345624805922133 / 14073748835532800) = real_of_int (rne ((2345624805922133 / 14073748835532800) / 2 powi (- 55))) * 2 powi (- 55)"
    by (rule round_fin_evalI) simp_all
  also have "\<dots> = (1501199875790165 / 9007199254740992)"
    by (simp add: rne_def)
  finally show ?thesis by (rule round_double_evalI) simp
qed

lemma ds_cex_y: "round_double (4503599627370495 / 9007199254740992) = Num (4503599627370495 / 9007199254740992)"
proof -
  have "round_fin (4503599627370495 / 9007199254740992) = real_of_int (rne ((4503599627370495 / 9007199254740992) / 2 powi (- 54))) * 2 powi (- 54)"
    by (rule round_fin_evalI) simp_all
  also have "\<dots> = (4503599627370495 / 9007199254740992)"
    by (simp add: rne_def)
  finally show ?thesis by (rule round_double_evalI) simp
qed

text \<open>
  C8, as the code has it. The ratio \<^verbatim>\<open>t2 / t1\<close> is computed in doubles by a division, a
  multiplication by 100 and a division by 100, each rounded, so it equals
  \<open>v / reference\<close> only up to rounding: for doubles \<open>0 \<le> v \<le> reference\<close>, \<open>0 < reference\<close>,
  it is within \<open>2^-51\<close> of it. For \<open>1 \<le> N \<le> 53\<close> the digital code is
  \<^verbatim>\<open>Math.round\<close> of the double product of that ratio with \<open>2^N - 1\<close>: an integer in
  \<open>0 \<dots> 2^N - 1\<close> within \<open>1/2 + (2^N - 1) / 2^50\<close> of \<open>v / reference * (2^N - 1)\<close>. The
  code of the reference is \<open>2^N - 1\<close> and the code of 0 is 0.
\<close>

theorem dual_slope_ratio_law:
  assumes "1 \<le> N" and "N \<le> 53"
    and "is_double vRef" and "0 < vRef" and "is_double v" and "0 \<le> v" and "v \<le> vRef"
  shows "(\<exists>r. jdiv (t2 (Num vRef) (Num v)) t1 = Num r \<and> \<bar>r - v / vRef\<bar> \<le> 1 / 2 ^ 51)
    \<and> dualSlopeCount N (Num vRef) (Num v)
        = jround (jmul (jdiv (t2 (Num vRef) (Num v)) t1) (Num (2 ^ nat N - 1)))
    \<and> (\<exists>c. dualSlopeCount N (Num vRef) (Num v) = Num (of_int c)
          \<and> 0 \<le> c \<and> c \<le> 2 ^ nat N - 1
          \<and> \<bar>of_int c - v / vRef * (2 ^ nat N - 1)\<bar> \<le> 1/2 + (2 ^ nat N - 1) / 2 ^ 50)
    \<and> dualSlopeCount N (Num vRef) (Num vRef) = Num (2 ^ nat N - 1)
    \<and> dualSlopeCount N (Num vRef) (Num 0) = Num 0"
proof -
  from dual_slope_ratio [OF assms(3,4,6,7)] obtain r
    where r: "jdiv (t2 (Num vRef) (Num v)) t1 = Num r"
      and re: "\<bar>r - v / vRef\<bar> \<le> 3 / 2 ^ 53 + 3 / 2 ^ 1075" by blast
  have "(3::real) / 2 ^ 1075 \<le> 3 / 2 ^ 55" using tiny_le by simp
  with re have "\<bar>r - v / vRef\<bar> \<le> 1 / 2 ^ 51" by simp
  with r have ratio: "\<exists>r. jdiv (t2 (Num vRef) (Num v)) t1 = Num r \<and> \<bar>r - v / vRef\<bar> \<le> 1 / 2 ^ 51"
    by blast
  from assms(1,2) have mc: "dualSlopeMaxCount N = Num (2 ^ nat N - 1)" by (rule max_count)
  have form: "dualSlopeCount N (Num vRef) (Num v)
      = jround (jmul (jdiv (t2 (Num vRef) (Num v)) t1) (Num (2 ^ nat N - 1)))"
    unfolding dualSlopeCount_def mc ..
  note code = dual_slope_code [OF assms(1,2,3,4,6,7)]
  note full = dual_slope_full_scale [OF assms(1,2,3,4)]
  from assms(4) have "vRef \<noteq> 0" by simp
  with assms(1,2) have zero: "dualSlopeCount N (Num vRef) (Num 0) = Num 0"
    by (rule dual_slope_zero)
  from ratio form code full zero show ?thesis by (intro conjI)
qed

text \<open>Four bits, reference 3.3 V, input 1.65 V.\<close>

theorem dual_slope_ratio_law_witness:
  "(\<exists>r. jdiv (t2 (Num (3715469692580659 / 1125899906842624))
            (Num (3715469692580659 / 2251799813685248))) t1 = Num r
        \<and> \<bar>r - 1 / 2\<bar> \<le> 1 / 2 ^ 51)
   \<and> (\<exists>c. dualSlopeCount 4 (Num (3715469692580659 / 1125899906842624))
            (Num (3715469692580659 / 2251799813685248)) = Num (of_int c)
        \<and> 0 \<le> c \<and> c \<le> 15)
   \<and> dualSlopeCount 4 (Num (3715469692580659 / 1125899906842624))
        (Num (3715469692580659 / 1125899906842624)) = Num 15
   \<and> dualSlopeCount 4 (Num (3715469692580659 / 1125899906842624)) (Num 0) = Num 0"
proof -
  have h: "(1::int) \<le> 4" "(4::int) \<le> 53"
    "(0::real) < 3715469692580659 / 1125899906842624"
    "(0::real) \<le> 3715469692580659 / 2251799813685248"
    "(3715469692580659 / 2251799813685248 :: real) \<le> 3715469692580659 / 1125899906842624"
    by simp_all
  note w = dual_slope_ratio_law [OF h(1,2) is_double_3_3 h(3) is_double_1_65 h(4,5)]
  have e: "(3715469692580659 / 2251799813685248 :: real) / (3715469692580659 / 1125899906842624) = 1 / 2"
    by simp
  have n: "(2::int) ^ nat 4 - 1 = 15" "(2::real) ^ nat 4 - 1 = 15" by simp_all
  from w [THEN conjunct1] have a: "\<exists>r. jdiv (t2 (Num (3715469692580659 / 1125899906842624))
            (Num (3715469692580659 / 2251799813685248))) t1 = Num r
        \<and> \<bar>r - 1 / 2\<bar> \<le> 1 / 2 ^ 51" unfolding e .
  from w [THEN conjunct2, THEN conjunct2, THEN conjunct1]
  have b: "\<exists>c. dualSlopeCount 4 (Num (3715469692580659 / 1125899906842624))
            (Num (3715469692580659 / 2251799813685248)) = Num (of_int c)
        \<and> 0 \<le> c \<and> c \<le> 15" unfolding n by blast
  from w [THEN conjunct2, THEN conjunct2, THEN conjunct2, THEN conjunct1]
  have c: "dualSlopeCount 4 (Num (3715469692580659 / 1125899906842624))
        (Num (3715469692580659 / 1125899906842624)) = Num 15" unfolding n .
  from w [THEN conjunct2, THEN conjunct2, THEN conjunct2, THEN conjunct2]
  have d: "dualSlopeCount 4 (Num (3715469692580659 / 1125899906842624)) (Num 0) = Num 0" .
  from a b c d show ?thesis by (intro conjI)
qed

text \<open>
  The claim as stated fails: with two bits, reference 3 V and input 0.5 V the ratio
  \<^verbatim>\<open>t2 / t1\<close> is the double 1501199875790165 / 2^53, which is neither \<open>0.5 / 3\<close> nor the
  double quotient \<^verbatim>\<open>0.5 / 3\<close>; its product with 3 rounds below one half and the code is
  0, where \<open>round (0.5 / 3 * 3) = 1\<close>.
\<close>

theorem dual_slope_ratio_inexact:
  "jdiv (t2 (Num 3) (Num (1 / 2))) t1 = Num (1501199875790165 / 9007199254740992)
   \<and> jdiv (Num (1 / 2)) (Num 3) = Num (6004799503160661 / 36028797018963968)
   \<and> ((1501199875790165 / 9007199254740992) :: real) \<noteq> (1 / 2) / 3
   \<and> dualSlopeCount 2 (Num 3) (Num (1 / 2)) = Num 0
   \<and> \<lfloor>(1 / 2) / 3 * (2 ^ 2 - 1) + 1 / 2 :: real\<rfloor> = 1"
proof -
  have q: "jdiv (Num (1 / 2)) (Num 3) = Num (6004799503160661 / 36028797018963968)"
    using ds_cex_q by simp
  have p: "jmul (Num (6004799503160661 / 36028797018963968)) (Num 100) = Num (2345624805922133 / 140737488355328)"
    using ds_cex_p by simp
  have r: "jdiv (Num (2345624805922133 / 140737488355328)) (Num 100) = Num (1501199875790165 / 9007199254740992)"
    using ds_cex_r by simp
  have m: "dualSlopeMaxCount 2 = Num 3"
    using max_count(1) [of 2] by simp
  have y: "jmul (Num (1501199875790165 / 9007199254740992)) (Num 3) = Num (4503599627370495 / 9007199254740992)"
    using ds_cex_y by simp
  have c: "jround (Num (4503599627370495 / 9007199254740992)) = Num 0"
    by simp
  have ratio: "jdiv (t2 (Num 3) (Num (1 / 2))) t1 = Num (1501199875790165 / 9007199254740992)"
    unfolding t2_def t1_def q p r ..
  have code: "dualSlopeCount 2 (Num 3) (Num (1 / 2)) = Num 0"
    unfolding dualSlopeCount_def ratio m y c ..
  have ne: "((1501199875790165 / 9007199254740992) :: real) \<noteq> (1 / 2) / 3" by simp
  have ideal: "\<lfloor>(1 / 2) / 3 * (2 ^ 2 - 1) + 1 / 2 :: real\<rfloor> = 1" by simp
  from ratio q ne code ideal show ?thesis by (intro conjI)
qed


section \<open>Resolutions below one\<close>

lemma powi2_le_one:
  assumes "N \<le> 0"
  shows "(2::real) powi N \<le> 1"
proof -
  from assms have "(2::real) powi N \<le> 2 powi 0" by (rule powi2_mono)
  then show ?thesis by simp
qed

lemma step_low_resolution:
  assumes "N \<le> 0" and "is_double vRef" and "0 < vRef"
  shows "stepSize N (Num vRef) = PosInf
    \<or> (\<exists>s. stepSize N (Num vRef) = Num s \<and> vRef \<le> s)"
proof (cases "N < - 1074")
  case True
  then have "jpow2 N = Num 0" by (simp add: jpow2_def)
  with assms(3) have "stepSize N (Num vRef) = PosInf" by (simp add: stepSize_def)
  then show ?thesis ..
next
  case False
  with assms(1) have "jpow2 N = Num (2 powi N)" by (simp add: jpow2_def)
  then have st: "stepSize N (Num vRef) = round_double (vRef / 2 powi N)"
    by (simp add: stepSize_def)
  have p: "(0::real) < 2 powi N" by simp
  from assms(1) have "(2::real) powi N \<le> 1" by (rule powi2_le_one)
  with p assms(3) have "vRef / 1 \<le> vRef / 2 powi N"
    by (intro divide_left_mono) simp_all
  then have le: "vRef \<le> vRef / 2 powi N" by simp
  with assms(3) have "0 \<le> vRef / 2 powi N" by linarith
  then have "round_double (vRef / 2 powi N) = PosInf
      \<or> (round_double (vRef / 2 powi N) = Num (round_fin (vRef / 2 powi N))
          \<and> 0 \<le> round_fin (vRef / 2 powi N))"
    by (rule round_double_nonneg_cases)
  moreover from le have "round_fin vRef \<le> round_fin (vRef / 2 powi N)" by (rule round_fin_mono)
  with assms(2) have "vRef \<le> round_fin (vRef / 2 powi N)" by (simp add: is_double_fixed)
  ultimately show ?thesis unfolding st by blast
qed

lemma dac_low_resolution:
  assumes "N \<le> 0" and "is_double vRef" and "0 < vRef" and "1 \<le> D"
  shows "jge (outputVoltage N (Num vRef) D) (Num vRef)"
proof -
  from assms(4) have "real_of_int 1 \<le> real_of_int D" by (rule of_int_le_iff [THEN iffD2])
  then have d: "1 \<le> real_of_int D" by simp
  from step_low_resolution [OF assms(1,2,3)] show ?thesis
  proof
    assume "stepSize N (Num vRef) = PosInf"
    with d show ?thesis unfolding outputVoltage_def by simp
  next
    assume "\<exists>s. stepSize N (Num vRef) = Num s \<and> vRef \<le> s"
    then obtain s where s: "stepSize N (Num vRef) = Num s" and le: "vRef \<le> s" by blast
    from le assms(3) have s0: "0 \<le> s" by simp
    from d s0 have "1 * s \<le> real_of_int D * s" by (rule mult_right_mono)
    with le have "vRef \<le> real_of_int D * s" by simp
    moreover from assms(3) have "0 \<le> vRef" by simp
    ultimately have "jge (round_double (real_of_int D * s)) (Num vRef)"
      using assms(2) by (intro round_above)
    then show ?thesis unfolding outputVoltage_def s by simp
  qed
qed

lemma max_count_low:
  assumes "N \<le> 0"
  shows "\<exists>m. dualSlopeMaxCount N = Num m \<and> - 1 \<le> m \<and> m \<le> 0"
proof -
  define p :: real where "p = (if N < - 1074 then 0 else 2 powi N)"
  have jp: "jpow2 N = Num p" unfolding p_def jpow2_def using assms by simp
  have p0: "0 \<le> p" unfolding p_def by simp
  have p1: "p \<le> 1" unfolding p_def using powi2_le_one [OF assms] by simp
  have mc: "dualSlopeMaxCount N = round_double (p - 1)"
    unfolding dualSlopeMaxCount_def jsub_def jp by simp
  from p0 have lo: "- 1 \<le> p - 1" by simp
  from p1 have hi: "p - 1 \<le> 0" by simp
  note r = round_in_neg [OF lo hi is_double_1]
  from r show ?thesis unfolding mc by blast
qed

lemma dual_slope_low_resolution:
  assumes "N \<le> 0" and "is_double vRef" and "0 < vRef" and "0 \<le> v" and "v \<le> vRef"
  shows "dualSlopeCount N (Num vRef) (Num v) = Num 0
    \<or> dualSlopeCount N (Num vRef) (Num v) = Num (- 1)"
proof -
  from dual_slope_ratio [OF assms(2-5)] obtain r
    where r: "jdiv (t2 (Num vRef) (Num v)) t1 = Num r" and r0: "0 \<le> r" and r1: "r \<le> 1"
    by blast
  from max_count_low [OF assms(1)] obtain m
    where m: "dualSlopeMaxCount N = Num m" and m0: "- 1 \<le> m" and m1: "m \<le> 0" by blast
  define y where "y = round_fin (r * m)"
  from r0 m1 have hi: "r * m \<le> 0" by (simp add: mult_le_0_iff)
  have lo: "- 1 \<le> r * m"
  proof -
    from r1 m1 have "1 * m \<le> r * m" by (rule mult_right_mono_neg)
    with m0 show ?thesis by simp
  qed
  note ry = round_in_neg [OF lo hi is_double_1]
  have prod: "jmul (Num r) (Num m) = Num y" unfolding y_def using ry(1) by simp
  from ry(2,3) have y0: "- 1 \<le> y" and y1: "y \<le> 0" unfolding y_def by simp_all
  have code: "dualSlopeCount N (Num vRef) (Num v) = Num (real_of_int \<lfloor>y + 1 / 2\<rfloor>)"
    unfolding dualSlopeCount_def r m prod by simp
  from y0 have "- 1 \<le> \<lfloor>y + 1 / 2\<rfloor>" by linarith
  moreover from y1 have "\<lfloor>y + 1 / 2\<rfloor> \<le> 0" by linarith
  ultimately have "\<lfloor>y + 1 / 2\<rfloor> = 0 \<or> \<lfloor>y + 1 / 2\<rfloor> = - 1" by linarith
  then show ?thesis unfolding code by auto
qed

text \<open>
  C4, as the code has it. No conversion simulator checks the resolution. For every
  \<open>N \<le> 0\<close> (reference and input doubles, \<open>0 \<le> v \<le> reference\<close>, \<open>0 < reference\<close>) the
  successive-approximation loop returns an empty step list, the DAC returns an empty switch
  list and, for a code of 1 or more, a voltage of at least the reference, and the
  dual-slope simulator returns the code 0 or -1.
\<close>

theorem resolution_not_checked:
  assumes "N \<le> 0"
    and "is_double vRef" and "0 < vRef" and "is_double v" and "0 \<le> v" and "v \<le> vRef"
    and "1 \<le> D" and "D < 2 ^ 53"
  shows "sarSteps N (Num vRef) (Num v) = []
    \<and> bits N D = []
    \<and> jge (outputVoltage N (Num vRef) D) (Num vRef)
    \<and> (dualSlopeCount N (Num vRef) (Num v) = Num 0
        \<or> dualSlopeCount N (Num vRef) (Num v) = Num (- 1))"
proof -
  from assms(1) have a: "sarSteps N (Num vRef) (Num v) = []"
    by (simp add: sarSteps_def)
  from assms(1) have b: "bits N D = []"
    by (simp add: bits_def)
  from assms(1,2,3,7) have c: "jge (outputVoltage N (Num vRef) D) (Num vRef)"
    by (rule dac_low_resolution)
  from assms(1,2,3,5,6) have d: "dualSlopeCount N (Num vRef) (Num v) = Num 0
      \<or> dualSlopeCount N (Num vRef) (Num v) = Num (- 1)"
    by (rule dual_slope_low_resolution)
  from a b c d show ?thesis by (intro conjI)
qed

text \<open>Resolution -1 with reference 3.3 V, input 1.65 V and code 1.\<close>

theorem resolution_not_checked_witness:
  "sarSteps (- 1) (Num (3715469692580659 / 1125899906842624)) (Num (3715469692580659 / 2251799813685248)) = []
   \<and> bits (- 1) 1 = []
   \<and> jge (outputVoltage (- 1) (Num (3715469692580659 / 1125899906842624)) 1) (Num (3715469692580659 / 1125899906842624))
   \<and> (dualSlopeCount (- 1) (Num (3715469692580659 / 1125899906842624)) (Num (3715469692580659 / 2251799813685248)) = Num 0
       \<or> dualSlopeCount (- 1) (Num (3715469692580659 / 1125899906842624)) (Num (3715469692580659 / 2251799813685248)) = Num (- 1))"
proof -
  have h: "(- 1 :: int) \<le> 0" "(0::real) < (3715469692580659 / 1125899906842624)"
    "(0::real) \<le> (3715469692580659 / 2251799813685248)"
    "((3715469692580659 / 2251799813685248) :: real) \<le> (3715469692580659 / 1125899906842624)"
    "(1::int) \<le> 1" "(1::int) < 2 ^ 53"
    by simp_all
  show ?thesis
    by (rule resolution_not_checked [OF h(1) is_double_3_3 h(2) is_double_1_65 h(3,4,5,6)])
qed

text \<open>
  The claim as stated fails: with resolution 0, reference 3.3 V and input 1.65 V every
  simulator returns a value. The step list and the switch list are empty, the DAC voltage
  of code 1 is the reference, and the dual-slope code is 0.
\<close>

theorem resolution_zero_quiet:
  "sarSteps 0 (Num (3715469692580659 / 1125899906842624)) (Num (3715469692580659 / 2251799813685248)) = []
   \<and> bits 0 1 = []
   \<and> outputVoltage 0 (Num (3715469692580659 / 1125899906842624)) 1 = Num (3715469692580659 / 1125899906842624)
   \<and> dualSlopeCount 0 (Num (3715469692580659 / 1125899906842624)) (Num (3715469692580659 / 2251799813685248)) = Num 0"
proof -
  have a: "sarSteps 0 (Num (3715469692580659 / 1125899906842624)) (Num (3715469692580659 / 2251799813685248)) = []"
    by (simp add: sarSteps_def)
  have b: "bits 0 1 = []" by (simp add: bits_def)
  have p: "jpow2 0 = Num 1" by (simp add: jpow2_def)
  have ref: "round_double (3715469692580659 / 1125899906842624) = Num (3715469692580659 / 1125899906842624)"
    using is_double_3_3 by (rule round_double_exact)
  have c: "outputVoltage 0 (Num (3715469692580659 / 1125899906842624)) 1 = Num (3715469692580659 / 1125899906842624)"
    unfolding outputVoltage_def stepSize_def p using ref by simp
  have zero: "round_double 0 = Num 0" using is_double_0 by (rule round_double_exact)
  have half: "round_double (1 / 2) = Num (1 / 2)" using is_double_half by (rule round_double_exact)
  have fifty: "round_double 50 = Num 50"
    using is_double_of_int [of 50] by (intro round_double_exact) simp
  have q: "jdiv (Num (3715469692580659 / 2251799813685248)) (Num (3715469692580659 / 1125899906842624)) = Num (1 / 2)" using half by simp
  have t: "jmul (Num (1 / 2)) (Num 100) = Num 50" using fifty by simp
  have r: "jdiv (Num 50) (Num 100) = Num (1 / 2)" using half by simp
  have m: "dualSlopeMaxCount 0 = Num 0"
    unfolding dualSlopeMaxCount_def jsub_def p using zero by simp
  have y: "jmul (Num (1 / 2)) (Num 0) = Num 0" using zero by simp
  have e: "jround (Num 0) = Num 0" by simp
  have d: "dualSlopeCount 0 (Num (3715469692580659 / 1125899906842624)) (Num (3715469692580659 / 2251799813685248)) = Num 0"
    unfolding dualSlopeCount_def t2_def t1_def q t r m y e ..
  from a b c d show ?thesis by (intro conjI)
qed

end
